theory Spec2Isabelle
  imports Main "HOL-Library.Word"
begin

unbundle bit_operations_syntax

section \<open>The connection object of database.cc\<close>

text \<open>
  The embedding follows \<^verbatim>\<open>src/database.cc\<close> function by function. The members of
  \<^verbatim>\<open>class Database\<close> and what the code touches outside the object (the event loop's
  reference count, the requests handed to \<^verbatim>\<open>eio_custom\<close>, the calls into JavaScript
  and the calls into the sqlite3 engine) are the fields of one record that every function
  takes and returns. An \<^verbatim>\<open>assert\<close> that fails is the value \<open>Inl (Assertion_failed \<dots>)\<close>.
\<close>

subsection \<open>Values\<close>

type_synonym js_function = nat

text \<open>
  What the code inspects of a JavaScript value: whether it is an int32 (and which), a
  string, a function. \<open>Exception msg code\<close> is the object built by the \<^verbatim>\<open>EXCEPTION\<close>
  macro from a message and an sqlite3 status code; \<open>TypeError msg\<close> is
  \<^verbatim>\<open>Exception::TypeError\<close>.
\<close>

datatype js_value =
    Undefined
  | Null
  | Int32 "32 word"
  | Number_other
  | Str string
  | Function js_function
  | Exception string int
  | TypeError string

type_synonym sqlite3 = nat

definition SQLITE_OK :: int where "SQLITE_OK = 0"
definition SQLITE_MISUSE :: int where "SQLITE_MISUSE = 21"

definition SQLITE_OPEN_READWRITE :: "32 word" where "SQLITE_OPEN_READWRITE = 0x00000002"
definition SQLITE_OPEN_CREATE :: "32 word" where "SQLITE_OPEN_CREATE = 0x00000004"
definition SQLITE_OPEN_FULLMUTEX :: "32 word" where "SQLITE_OPEN_FULLMUTEX = 0x00010000"

text \<open>
  The batons, with the members that \<^verbatim>\<open>database.cc\<close> reads and writes: \<^verbatim>\<open>db\<close>,
  \<^verbatim>\<open>callback\<close>, \<^verbatim>\<open>status\<close> and \<^verbatim>\<open>message\<close> of a \<^verbatim>\<open>Baton\<close>, and in addition
  \<^verbatim>\<open>filename\<close> and \<^verbatim>\<open>mode\<close> of an \<^verbatim>\<open>OpenBaton\<close>. The \<^verbatim>\<open>db\<close> pointer is the one
  connection of the state. An empty \<^verbatim>\<open>callback\<close> handle is \<open>None\<close>.
\<close>

record Baton =
  callback :: "js_function option"
  status :: int
  message :: string

record OpenBaton = Baton +
  filename :: string
  mode :: "32 word"

text \<open>
  The functions handed to \<^verbatim>\<open>Schedule\<close>. \<^verbatim>\<open>database.cc\<close> schedules
  \<^verbatim>\<open>EIO_BeginClose\<close> only (\<open>Fn_BeginClose\<close> is the pointer to it); \<open>Fn_BeginShared\<close>
  stands for the work of a shared (non-exclusive) request, which other files of the
  repository schedule.
\<close>

datatype EIO_Callback = Fn_BeginClose | Fn_BeginShared

text \<open>
  A queued \<^verbatim>\<open>Call\<close>, built by \<^verbatim>\<open>new Call(callback, baton, exclusive)\<close>.
\<close>

record Call =
  call_callback :: EIO_Callback
  call_baton :: Baton
  exclusive :: bool

text \<open>
  A request given to \<^verbatim>\<open>eio_custom\<close>: which pair of functions (work on the worker
  thread, completion on the event loop) and the \<^verbatim>\<open>data\<close> pointer.
\<close>

datatype eio_req =
    Req_Open OpenBaton
  | Req_Close Baton
  | Req_Destruct
  | Req_Shared Baton

text \<open>The state of \<^verbatim>\<open>Persistent<Object> handle_\<close>: empty, strong, or weak.\<close>

datatype persistent = Empty | Strong | Weak

text \<open>Calls into JavaScript, in the order they are made.\<close>

datatype js_call =
    TRY_CATCH_CALL js_function "js_value list"
  | EMIT_EVENT "js_value list"

text \<open>
  Calls into the sqlite3 engine, in the order they are made: \<^verbatim>\<open>sqlite3_open_v2\<close> with
  the file name and the flags it is given, the status it returns and the handle it
  stores; \<^verbatim>\<open>sqlite3_close\<close> with the handle it is given and the status it returns.
\<close>

datatype engine_call =
    Sqlite3_open_v2 string "32 word" int "sqlite3 option"
  | Sqlite3_close "sqlite3 option" int

text \<open>What an engine call answers: the status code, the error message, the handle it stores.\<close>

record sqlite3_result =
  rc :: int
  errmsg :: string
  ppDb :: "sqlite3 option"

subsection \<open>State\<close>

text \<open>The world outside the connection object.\<close>

record env =
  ev_refs :: int
  eio :: "(eio_req \<times> bool) list"
  js_calls :: "js_call list"
  engine :: "engine_call list"

text \<open>
  \<open>eio\<close> holds the requests given to \<^verbatim>\<open>eio_custom\<close> whose completion has not run yet;
  the flag says whether the worker thread has run the work function.

  The connection object: the members \<^verbatim>\<open>open\<close> (here \<open>opened\<close>), \<^verbatim>\<open>locked\<close>,
  \<^verbatim>\<open>pending\<close>, \<^verbatim>\<open>queue\<close> and \<^verbatim>\<open>handle\<close> of \<^verbatim>\<open>Database\<close>; \<^verbatim>\<open>refs_\<close> and
  \<^verbatim>\<open>handle_\<close> of \<^verbatim>\<open>ObjectWrap\<close> (here \<open>refs\<close> and \<open>js_handle\<close>); the properties set
  on the JavaScript object; whether V8 has run the weak callback (\<open>finalized\<close>) and
  whether \<^verbatim>\<open>delete db\<close> has run (\<open>deleted\<close>). The members are declared in
  \<^verbatim>\<open>database.h\<close>, which is not among the sources; \<open>pending\<close> is a natural number, the
  spec's "integer \<ge> 0".
\<close>

record state = env +
  opened :: bool
  locked :: bool
  pending :: nat
  queue :: "Call list"
  handle :: "sqlite3 option"
  refs :: int
  js_handle :: persistent
  props :: "(string \<times> js_value) list"
  finalized :: bool
  deleted :: bool

datatype failure = Assertion_failed string | Not_enabled

subsection \<open>Helpers of the host: event loop, worker pool, JavaScript\<close>

definition ev_ref :: "state \<Rightarrow> state" where
  "ev_ref db = db\<lparr>ev_refs := ev_refs db + 1\<rparr>"

definition ev_unref :: "state \<Rightarrow> state" where
  "ev_unref db = db\<lparr>ev_refs := ev_refs db - 1\<rparr>"

definition eio_custom :: "eio_req \<Rightarrow> state \<Rightarrow> state" where
  "eio_custom r db = db\<lparr>eio := eio db @ [(r, False)]\<rparr>"

definition js :: "js_call \<Rightarrow> state \<Rightarrow> state" where
  "js c db = db\<lparr>js_calls := js_calls db @ [c]\<rparr>"

text \<open>
  The macros \<^verbatim>\<open>EMIT_EVENT\<close> and \<^verbatim>\<open>TRY_CATCH_CALL\<close> are defined in \<^verbatim>\<open>macros.h\<close>,
  which is not among the sources. Each is a call into JavaScript, recorded with its
  arguments: \<^verbatim>\<open>EMIT_EVENT(obj, argc, argv)\<close> passes the first \<open>argc\<close> values of
  \<open>argv\<close> to the object's \<^verbatim>\<open>emit\<close>, \<^verbatim>\<open>TRY_CATCH_CALL(obj, callback, argc, argv)\<close>
  calls \<open>callback\<close>.
\<close>

definition emit_event :: "nat \<Rightarrow> js_value list \<Rightarrow> state \<Rightarrow> state" where
  "emit_event argc argv db = js (EMIT_EVENT (take argc argv)) db"

definition try_catch_call :: "js_function \<Rightarrow> js_value list \<Rightarrow> state \<Rightarrow> state" where
  "try_catch_call f argv db = js (TRY_CATCH_CALL f argv) db"

text \<open>\<^verbatim>\<open>args[i]\<close> of \<^verbatim>\<open>v8::Arguments\<close> is undefined outside the argument list.\<close>

definition arg :: "js_value list \<Rightarrow> nat \<Rightarrow> js_value" where
  "arg args i = (if i < length args then args ! i else Undefined)"

fun IsInt32 :: "js_value \<Rightarrow> bool" where
  "IsInt32 (Int32 _) = True"
| "IsInt32 _ = False"

fun Int32Value :: "js_value \<Rightarrow> 32 word" where
  "Int32Value (Int32 v) = v"
| "Int32Value _ = 0"

fun IsFunction :: "js_value \<Rightarrow> bool" where
  "IsFunction (Function _) = True"
| "IsFunction _ = False"

fun Cast_Function :: "js_value \<Rightarrow> js_function option" where
  "Cast_Function (Function f) = Some f"
| "Cast_Function _ = None"

subsection \<open>ObjectWrap: Ref, Unref, MakeWeak\<close>

text \<open>
  \<^verbatim>\<open>ObjectWrap::Ref\<close> of node: \<^verbatim>\<open>assert(!handle_.IsEmpty()); refs_++; handle_.ClearWeak();\<close>
\<close>

definition Ref :: "state \<Rightarrow> failure + state" where
  "Ref db =
     (if js_handle db = Empty then Inl (Assertion_failed ''!handle_.IsEmpty()'')
      else Inr (db\<lparr>refs := refs db + 1, js_handle := Strong\<rparr>))"

definition MakeWeak :: "state \<Rightarrow> state" where
  "MakeWeak db = db\<lparr>js_handle := Weak\<rparr>"

definition Unref :: "state \<Rightarrow> failure + state" where
  "Unref db =
     (if js_handle db = Empty then Inl (Assertion_failed ''!handle_.IsEmpty()'')
      else if js_handle db = Weak then Inl (Assertion_failed ''!handle_.IsWeak()'')
      else if \<not> refs db > 0 then Inl (Assertion_failed ''refs_ > 0'')
      else let db = db\<lparr>refs := refs db - 1\<rparr>
           in Inr (if refs db = 0 then MakeWeak db else db))"

subsection \<open>Close begins; the shared work\<close>

definition EIO_BeginClose :: "Baton \<Rightarrow> state \<Rightarrow> failure + state" where
  "EIO_BeginClose baton db =
     (if \<not> opened db then Inl (Assertion_failed ''baton->db->open'')
      else if locked db then Inl (Assertion_failed ''!baton->db->locked'')
      else if pending db \<noteq> 0 then Inl (Assertion_failed ''baton->db->pending == 0'')
      else Inr (eio_custom (Req_Close baton) (db\<lparr>locked := True\<rparr>)))"

text \<open>
  Modelled from the spec: the work function of a shared request, which is scheduled by
  files of the repository other than \<^verbatim>\<open>database.cc\<close>. The spec: \<open>pending\<close> is the
  "count of in-flight non-exclusive operations currently dispatched to Worker Dispatch
  but not yet completed", and "every dispatch to Worker Dispatch is bracketed: increment
  the ref count and mark the event loop as having outstanding work immediately before
  dispatch".
\<close>

definition EIO_BeginShared :: "Baton \<Rightarrow> state \<Rightarrow> failure + state" where
  "EIO_BeginShared baton db =
     (case Ref db of
        Inl a \<Rightarrow> Inl a
      | Inr db \<Rightarrow> Inr (eio_custom (Req_Shared baton) ((ev_ref db)\<lparr>pending := pending db + 1\<rparr>)))"

fun invoke :: "EIO_Callback \<Rightarrow> Baton \<Rightarrow> state \<Rightarrow> failure + state" where
  "invoke Fn_BeginClose baton db = EIO_BeginClose baton db"
| "invoke Fn_BeginShared baton db = EIO_BeginShared baton db"

subsection \<open>Process and Schedule\<close>

definition closed_exception :: js_value where
  "closed_exception = Exception ''Database is closed'' SQLITE_MISUSE"

text \<open>The \<^verbatim>\<open>while\<close> loop of \<^verbatim>\<open>Database::Process\<close>.\<close>

function Process_loop :: "state \<Rightarrow> failure + state" where
  "Process_loop db =
     (if opened db \<and> \<not> locked db \<and> queue db \<noteq> [] then
        (let call = hd (queue db) in
         if exclusive call \<and> pending db > 0 then Inr db
         else (case invoke (call_callback call) (call_baton call) db of
                 Inl a \<Rightarrow> Inl a
               | Inr db' \<Rightarrow> Process_loop (db'\<lparr>queue := tl (queue db')\<rparr>)))
      else Inr db)"
  by pat_completeness auto
termination
proof (relation "measure (\<lambda>db. length (queue db))")
  show "wf (measure (\<lambda>db. length (queue db)))" by simp
next
  fix db :: state and call db'
  assume "opened db \<and> \<not> locked db \<and> queue db \<noteq> []" and "call = hd (queue db)"
    and "invoke (call_callback call) (call_baton call) db = Inr db'"
  then have "queue db' = queue db" and "queue db \<noteq> []"
    by (cases "call_callback call";
        auto simp: EIO_BeginClose_def EIO_BeginShared_def Ref_def eio_custom_def ev_ref_def
             split: if_splits sum.splits)+
  then show "(db'\<lparr>queue := tl (queue db')\<rparr>, db) \<in> measure (\<lambda>db. length (queue db))"
    by (cases "queue db") auto
qed

declare Process_loop.simps [simp del]

definition Process :: "state \<Rightarrow> failure + state" where
  "Process db =
     (if \<not> opened db \<and> locked db \<and> queue db \<noteq> [] then
        Inr (emit_event 2 [Str ''error'', closed_exception] db)
      else Process_loop db)"

definition Schedule :: "EIO_Callback \<Rightarrow> Baton \<Rightarrow> bool \<Rightarrow> state \<Rightarrow> failure + state" where
  "Schedule cb baton excl db =
     (if \<not> opened db \<and> locked db then
        (case callback baton of
           Some f \<Rightarrow> Inr (try_catch_call f [closed_exception] db)
         | None \<Rightarrow> Inr (emit_event 2 [Str ''error'', closed_exception] db))
      else if \<not> opened db \<or> locked db \<or> (excl \<and> pending db > 0) then
        Inr (db\<lparr>queue := queue db @ [\<lparr>call_callback = cb, call_baton = baton, exclusive = excl\<rparr>]\<rparr>)
      else invoke cb baton db)"

subsection \<open>Construction and open\<close>

text \<open>
  Modelled from the spec: the constructor \<^verbatim>\<open>Database()\<close> is declared in
  \<^verbatim>\<open>database.h\<close>, which is not among the sources. The spec: a connection object is
  created with "open=false, locked=false, pending=0, queue empty, native_handle absent".
  \<^verbatim>\<open>ObjectWrap()\<close> of node starts with \<^verbatim>\<open>refs_ = 0\<close> and an empty \<^verbatim>\<open>handle_\<close>; the
  spec's "refs=1" is the count after \<^verbatim>\<open>EIO_BeginOpen\<close> has run.
\<close>

definition new_Database :: "env \<Rightarrow> state" where
  "new_Database e =
     \<lparr>ev_refs = ev_refs e, eio = eio e, js_calls = js_calls e, engine = engine e,
      opened = False, locked = False, pending = 0, queue = [], handle = None,
      refs = 0, js_handle = Empty, props = [], finalized = False, deleted = False\<rparr>"

text \<open>\<^verbatim>\<open>Database::Init\<close> gives the instance template one internal field.\<close>

definition InternalFieldCount :: nat where
  "InternalFieldCount = 1"

definition Wrap :: "state \<Rightarrow> failure + state" where
  "Wrap db =
     (if js_handle db \<noteq> Empty then Inl (Assertion_failed ''handle_.IsEmpty()'')
      else if \<not> InternalFieldCount > 0 then
        Inl (Assertion_failed ''handle->InternalFieldCount() > 0'')
      else Inr (MakeWeak (db\<lparr>js_handle := Strong\<rparr>)))"

definition EIO_BeginOpen :: "OpenBaton \<Rightarrow> state \<Rightarrow> failure + state" where
  "EIO_BeginOpen baton db =
     (case Ref db of
        Inl a \<Rightarrow> Inl a
      | Inr db \<Rightarrow> Inr (eio_custom (Req_Open baton) (ev_ref db)))"

text \<open>
  \<^verbatim>\<open>baton->filename = *filename\<close> assigns a \<^verbatim>\<open>char*\<close> to a \<^verbatim>\<open>std::string\<close>: the
  characters up to the first NUL.
\<close>

definition c_string :: "string \<Rightarrow> string" where
  "c_string s = takeWhile (\<lambda>c. c \<noteq> CHR 0x00) s"

text \<open>
  \<^verbatim>\<open>Database::New\<close>. The macro \<^verbatim>\<open>REQUIRE_ARGUMENT_STRING\<close> is defined in
  \<^verbatim>\<open>macros.h\<close>, which is not among the sources: it is the parameter \<open>require\<close>, which
  either leaves \<^verbatim>\<open>New\<close> with an exception or yields the characters of argument 0, a
  string. The property \<^verbatim>\<open>filename\<close> is set to the whole string
  (\<^verbatim>\<open>args[0]->ToString()\<close>), the baton's file name to its characters up to the first
  NUL. A call that throws returns the exception and the world as it leaves it.
\<close>

definition New ::
  "(js_value list \<Rightarrow> js_value + string) \<Rightarrow> env \<Rightarrow> js_value list \<Rightarrow> bool
     \<Rightarrow> (failure + js_value) \<times> env + state" where
  "New require e args IsConstructCall =
     (if \<not> IsConstructCall then
        Inl (Inr (TypeError ''Use the new keyword to create new Database objects''), e)
      else
        (case require args of
           Inl exception \<Rightarrow> Inl (Inr exception, e)
         | Inr fname \<Rightarrow>
             (let pos = 1;
                  mode0 = SQLITE_OPEN_READWRITE OR SQLITE_OPEN_CREATE;
                  has_mode = (length args \<ge> pos \<and> IsInt32 (arg args pos));
                  mode1 = (if has_mode then Int32Value (arg args pos) else mode0);
                  pos = (if has_mode then pos + 1 else pos);
                  cb = (if length args \<ge> pos \<and> IsFunction (arg args pos)
                        then Cast_Function (arg args pos) else None);
                  db = new_Database e
              in case Wrap db of
                   Inl a \<Rightarrow> Inl (Inl a, e)
                 | Inr db \<Rightarrow>
                     (let db = db\<lparr>props := [(''filename'', Str fname), (''mode'', Int32 mode1)]\<rparr>;
                          baton = \<lparr>callback = cb, status = 0, message = [],
                                   filename = c_string fname, mode = SQLITE_OPEN_FULLMUTEX OR mode1\<rparr>
                      in case EIO_BeginOpen baton db of
                           Inl a \<Rightarrow> Inl (Inl a, e)
                         | Inr db \<Rightarrow> Inr db))))"

text \<open>
  \<^verbatim>\<open>EIO_Open\<close> runs on the worker thread; \<open>r\<close> is what \<^verbatim>\<open>sqlite3_open_v2\<close> answers.
\<close>

definition EIO_Open :: "sqlite3_result \<Rightarrow> OpenBaton \<Rightarrow> state \<Rightarrow> OpenBaton \<times> state" where
  "EIO_Open r baton db =
     (let db = db\<lparr>engine := engine db @
                    [Sqlite3_open_v2 (filename baton) (mode baton) (rc r) (ppDb r)],
                  handle := ppDb r\<rparr>;
          baton = baton\<lparr>status := rc r\<rparr>
      in if status baton \<noteq> SQLITE_OK
         then (baton\<lparr>message := errmsg r\<rparr>, db\<lparr>handle := None\<rparr>)
         else (baton, db))"

definition EIO_AfterOpen :: "OpenBaton \<Rightarrow> state \<Rightarrow> failure + state" where
  "EIO_AfterOpen baton db =
     (case Unref db of
        Inl a \<Rightarrow> Inl a
      | Inr db \<Rightarrow>
          (let db = ev_unref db;
               argv0 = (if status baton \<noteq> SQLITE_OK
                        then Exception (message baton) (status baton) else Null);
               db = (if status baton \<noteq> SQLITE_OK then db else db\<lparr>opened := True\<rparr>);
               db = (case callback baton of
                       Some f \<Rightarrow> try_catch_call f [argv0] db
                     | None \<Rightarrow> if \<not> opened db then emit_event 2 [Str ''error'', argv0] db
                               else db)
           in if opened db then Process (emit_event 1 [Str ''open''] db) else Inr db))"

subsection \<open>Close\<close>

text \<open>
  \<^verbatim>\<open>Database::Close\<close>. The macro \<^verbatim>\<open>OPTIONAL_ARGUMENT_FUNCTION\<close> is defined in
  \<^verbatim>\<open>macros.h\<close>; \<open>cb\<close> is the callback it yields (\<open>None\<close> when no function was given).
\<close>

definition Close :: "js_function option \<Rightarrow> state \<Rightarrow> failure + state" where
  "Close cb db =
     (case Ref db of
        Inl a \<Rightarrow> Inl a
      | Inr db \<Rightarrow>
          (let db = ev_ref db;
               baton = \<lparr>callback = cb, status = 0, message = []\<rparr>
           in Schedule Fn_BeginClose baton True db))"

text \<open>
  \<^verbatim>\<open>EIO_Close\<close> runs on the worker thread; \<open>r\<close> is what \<^verbatim>\<open>sqlite3_close\<close> answers.
\<close>

definition EIO_Close :: "sqlite3_result \<Rightarrow> Baton \<Rightarrow> state \<Rightarrow> Baton \<times> state" where
  "EIO_Close r baton db =
     (let db = db\<lparr>engine := engine db @ [Sqlite3_close (handle db) (rc r)]\<rparr>;
          baton = baton\<lparr>status := rc r\<rparr>
      in if status baton \<noteq> SQLITE_OK
         then (baton\<lparr>message := errmsg r\<rparr>, db)
         else (baton, db\<lparr>handle := None\<rparr>))"

definition EIO_AfterClose :: "Baton \<Rightarrow> state \<Rightarrow> failure + state" where
  "EIO_AfterClose baton db =
     (case Unref (ev_unref db) of
        Inl a \<Rightarrow> Inl a
      | Inr db \<Rightarrow>
          (let argv0 = (if status baton \<noteq> SQLITE_OK
                        then Exception (message baton) (status baton) else Null);
               db = (if status baton \<noteq> SQLITE_OK then db else db\<lparr>opened := False\<rparr>);
               db = (case callback baton of
                       Some f \<Rightarrow> try_catch_call f [argv0] db
                     | None \<Rightarrow> if opened db then emit_event 2 [Str ''error'', argv0] db
                               else db)
           in if \<not> opened db then Process (emit_event 1 [Str ''close'', argv0] db)
              else Inr db))"

subsection \<open>Finalization\<close>

definition delete_db :: "state \<Rightarrow> state" where
  "delete_db db = db\<lparr>deleted := True\<rparr>"

definition Destruct :: "state \<Rightarrow> state" where
  "Destruct db =
     (if handle db \<noteq> None then ev_ref (eio_custom Req_Destruct db)
      else delete_db db)"

definition EIO_Destruct :: "sqlite3_result \<Rightarrow> state \<Rightarrow> state" where
  "EIO_Destruct r db =
     db\<lparr>engine := engine db @ [Sqlite3_close (handle db) (rc r)], handle := None\<rparr>"

definition EIO_AfterDestruct :: "state \<Rightarrow> state" where
  "EIO_AfterDestruct db = delete_db (ev_unref db)"

subsection \<open>Shared requests\<close>

text \<open>
  Modelled from the spec: the worker-thread function and the completion of a shared
  request, which belong to files of the repository other than \<^verbatim>\<open>database.cc\<close>. The
  native handle "is read-only to any concurrently pending shared operation". On
  completion the spec has: "decrement and unmark immediately on completion, before any
  completion action runs"; \<open>pending\<close> counts the operations "dispatched but not yet
  completed"; the completion action "receives (error | null) as its first argument";
  and drain is "invoked after every state-changing event (open completes, close
  completes, a dispatched operation completes)".
\<close>

definition EIO_Shared :: "sqlite3_result \<Rightarrow> Baton \<Rightarrow> state \<Rightarrow> Baton \<times> state" where
  "EIO_Shared r baton db =
     (let baton = baton\<lparr>status := rc r\<rparr>
      in if status baton \<noteq> SQLITE_OK then (baton\<lparr>message := errmsg r\<rparr>, db) else (baton, db))"

definition EIO_AfterShared :: "Baton \<Rightarrow> state \<Rightarrow> failure + state" where
  "EIO_AfterShared baton db =
     (case Unref db of
        Inl a \<Rightarrow> Inl a
      | Inr db \<Rightarrow>
          (let db = (ev_unref db)\<lparr>pending := pending db - 1\<rparr>;
               argv0 = (if status baton \<noteq> SQLITE_OK
                        then Exception (message baton) (status baton) else Null);
               db = (case callback baton of
                       Some f \<Rightarrow> try_catch_call f [argv0] db
                     | None \<Rightarrow> db)
           in Process db))"

subsection \<open>Events\<close>

text \<open>
  What can happen to a constructed connection: JavaScript calls \<^verbatim>\<open>close\<close> or submits a
  shared request (possible until V8 has run the weak callback, which it does only for
  an object no JavaScript code can reach), the worker thread runs the work function of a
  request, the event loop runs the completion of a request whose work is done, and the
  garbage collector runs the weak callback \<^verbatim>\<open>Destruct\<close> of a weak \<^verbatim>\<open>handle_\<close>. The
  JavaScript functions themselves are outside the embedding: a call into JavaScript is
  recorded in \<open>js_calls\<close>, and what such a function does with the connection arrives as
  further events.
\<close>

datatype event =
    Js_close "js_function option"
  | Js_shared Baton
  | Worker nat sqlite3_result
  | Complete nat
  | Gc

definition remove_nth :: "nat \<Rightarrow> 'a list \<Rightarrow> 'a list" where
  "remove_nth i xs = take i xs @ drop (Suc i) xs"

definition worker :: "nat \<Rightarrow> sqlite3_result \<Rightarrow> state \<Rightarrow> failure + state" where
  "worker i r db =
     (if i < length (eio db) \<and> \<not> snd (eio db ! i) then
        (case fst (eio db ! i) of
           Req_Open b \<Rightarrow>
             (let (b', db') = EIO_Open r b db
              in Inr (db'\<lparr>eio := (eio db')[i := (Req_Open b', True)]\<rparr>))
         | Req_Close b \<Rightarrow>
             (let (b', db') = EIO_Close r b db
              in Inr (db'\<lparr>eio := (eio db')[i := (Req_Close b', True)]\<rparr>))
         | Req_Destruct \<Rightarrow>
             (let db' = EIO_Destruct r db
              in Inr (db'\<lparr>eio := (eio db')[i := (Req_Destruct, True)]\<rparr>))
         | Req_Shared b \<Rightarrow>
             (let (b', db') = EIO_Shared r b db
              in Inr (db'\<lparr>eio := (eio db')[i := (Req_Shared b', True)]\<rparr>)))
      else Inl Not_enabled)"

definition complete :: "nat \<Rightarrow> state \<Rightarrow> failure + state" where
  "complete i db =
     (if i < length (eio db) \<and> snd (eio db ! i) then
        (let db' = db\<lparr>eio := remove_nth i (eio db)\<rparr>
         in case fst (eio db ! i) of
              Req_Open b \<Rightarrow> EIO_AfterOpen b db'
            | Req_Close b \<Rightarrow> EIO_AfterClose b db'
            | Req_Destruct \<Rightarrow> Inr (EIO_AfterDestruct db')
            | Req_Shared b \<Rightarrow> EIO_AfterShared b db')
      else Inl Not_enabled)"

fun step :: "event \<Rightarrow> state \<Rightarrow> failure + state" where
  "step (Js_close cb) db = (if finalized db then Inl Not_enabled else Close cb db)"
| "step (Js_shared baton) db =
     (if finalized db then Inl Not_enabled else Schedule Fn_BeginShared baton False db)"
| "step (Worker i r) db = worker i r db"
| "step (Complete i) db = complete i db"
| "step Gc db =
     (if js_handle db = Weak \<and> \<not> finalized db then Inr (Destruct (db\<lparr>finalized := True\<rparr>))
      else Inl Not_enabled)"

fun run :: "event list \<Rightarrow> state \<Rightarrow> failure + state" where
  "run [] db = Inr db"
| "run (e # es) db = (case step e db of Inl a \<Rightarrow> Inl a | Inr db' \<Rightarrow> run es db')"

subsection \<open>Example inputs\<close>

text \<open>
  Concrete inputs for the evaluations below: an empty world, a \<open>require\<close> that accepts a
  string as argument 0, engine answers (success with handle 1, \<^verbatim>\<open>SQLITE_BUSY\<close>,
  \<^verbatim>\<open>SQLITE_CANTOPEN\<close>), and the connection constructed by
  \<^verbatim>\<open>new Database("test.db")\<close>.
\<close>

definition env0 :: env where
  "env0 = \<lparr>ev_refs = 0, eio = [], js_calls = [], engine = []\<rparr>"

definition require_string :: "js_value list \<Rightarrow> js_value + string" where
  "require_string args =
     (case arg args 0 of
        Str f \<Rightarrow> Inr f
      | _ \<Rightarrow> Inl (TypeError ''Argument 0 must be a string''))"

definition engine_ok :: sqlite3_result where
  "engine_ok = \<lparr>rc = 0, errmsg = [], ppDb = Some 1\<rparr>"

definition engine_busy :: sqlite3_result where
  "engine_busy = \<lparr>rc = 5, errmsg = ''database is locked'', ppDb = None\<rparr>"

definition engine_cantopen :: sqlite3_result where
  "engine_cantopen = \<lparr>rc = 14, errmsg = ''unable to open database file'', ppDb = Some 1\<rparr>"

definition constructed :: "(failure + js_value) \<times> env + state \<Rightarrow> state" where
  "constructed x = (case x of Inr db \<Rightarrow> db | Inl (_, e) \<Rightarrow> new_Database e)"

definition fresh :: state where
  "fresh = constructed (New require_string env0 [Str ''test.db''] True)"

definition fresh_cb :: state where
  "fresh_cb = constructed (New require_string env0 [Str ''test.db'', Function 9] True)"

definition baton_cb :: "js_function \<Rightarrow> Baton" where
  "baton_cb f = \<lparr>callback = Some f, status = 0, message = []\<rparr>"

text \<open>The record that \<^verbatim>\<open>Close\<close> queues for \<^verbatim>\<open>close(f)\<close>.\<close>

definition close_call :: "js_function \<Rightarrow> Call" where
  "close_call f = \<lparr>call_callback = Fn_BeginClose, call_baton = baton_cb f, exclusive = True\<rparr>"

text \<open>The record that a shared request with callback \<open>f\<close> is queued as.\<close>

definition shared_call :: "js_function \<Rightarrow> Call" where
  "shared_call f = \<lparr>call_callback = Fn_BeginShared, call_baton = baton_cb f, exclusive = False\<rparr>"

definition after :: "event list \<Rightarrow> state \<Rightarrow> state" where
  "after es db = (case run es db of Inr db' \<Rightarrow> db' | Inl _ \<Rightarrow> db)"

text \<open>
  \<open>db_open\<close>: the open has succeeded. \<open>db_waiting\<close>: one shared request is in flight and
  a close waits in the queue. \<open>db_closed\<close>: a close has succeeded.
\<close>

definition db_open :: state where
  "db_open = after [Worker 0 engine_ok, Complete 0] fresh"

definition db_waiting :: state where
  "db_waiting = after [Js_shared (baton_cb 1), Js_close (Some 2)] db_open"

definition db_closed :: state where
  "db_closed = after [Js_close None, Worker 0 engine_ok, Complete 0] db_open"

text \<open>\<open>db_queued\<close>: an open connection with four records in its queue.\<close>

definition db_queued :: state where
  "db_queued = db_open\<lparr>queue := [shared_call 1, shared_call 2, close_call 3, shared_call 4]\<rparr>"

text \<open>\<open>db_open_failed\<close>: \<^verbatim>\<open>new Database("test.db", f9)\<close> whose open has failed.\<close>

definition db_open_failed :: state where
  "db_open_failed = after [Worker 0 engine_cantopen, Complete 0] fresh_cb"

subsection \<open>Predicates used in the statements\<close>

text \<open>Every queued record whose work is \<^verbatim>\<open>EIO_BeginClose\<close> is exclusive.\<close>

definition closes_exclusive :: "state \<Rightarrow> bool" where
  "closes_exclusive db =
     (\<forall>c \<in> set (queue db). call_callback c = Fn_BeginClose \<longrightarrow> exclusive c)"

text \<open>The three assertions of \<^verbatim>\<open>EIO_BeginClose\<close>.\<close>

definition BeginClose_assertions :: "failure set" where
  "BeginClose_assertions =
     {Assertion_failed ''baton->db->open'', Assertion_failed ''!baton->db->locked'',
      Assertion_failed ''baton->db->pending == 0''}"

definition holds :: "(state \<Rightarrow> bool) \<Rightarrow> failure + state \<Rightarrow> bool" where
  "holds P r = (case r of Inl a \<Rightarrow> a \<notin> BeginClose_assertions | Inr db \<Rightarrow> P db)"

text \<open>
  The request that the work function of a record hands to \<^verbatim>\<open>eio_custom\<close>:
  \<^verbatim>\<open>EIO_BeginClose\<close> dispatches \<^verbatim>\<open>EIO_Close\<close> with the record's baton.
\<close>

definition request_of :: "Call \<Rightarrow> eio_req" where
  "request_of c =
     (case call_callback c of
        Fn_BeginClose \<Rightarrow> Req_Close (call_baton c)
      | Fn_BeginShared \<Rightarrow> Req_Shared (call_baton c))"

subsection \<open>Engine calls and the invariant of a connection\<close>

text \<open>The close calls and the open calls of an engine log: the handle and the status.\<close>

fun close_calls :: "engine_call list \<Rightarrow> (sqlite3 option \<times> int) list" where
  "close_calls [] = []"
| "close_calls (Sqlite3_close h c # cs) = (h, c) # close_calls cs"
| "close_calls (Sqlite3_open_v2 f m c h # cs) = close_calls cs"

fun open_calls :: "engine_call list \<Rightarrow> (sqlite3 option \<times> int) list" where
  "open_calls [] = []"
| "open_calls (Sqlite3_open_v2 f m c h # cs) = (h, c) # open_calls cs"
| "open_calls (Sqlite3_close h c # cs) = open_calls cs"

text \<open>The engine calls made since the log had length \<open>n\<close>.\<close>

definition closes :: "nat \<Rightarrow> state \<Rightarrow> (sqlite3 option \<times> int) list" where
  "closes n db = close_calls (drop n (engine db))"

definition opens :: "nat \<Rightarrow> state \<Rightarrow> (sqlite3 option \<times> int) list" where
  "opens n db = open_calls (drop n (engine db))"

text \<open>How many elements of a list satisfy a predicate.\<close>

definition cnt :: "('a \<Rightarrow> bool) \<Rightarrow> 'a list \<Rightarrow> nat" where
  "cnt P xs = length (filter P xs)"

fun is_open_req :: "eio_req \<Rightarrow> bool" where
  "is_open_req (Req_Open _) = True"
| "is_open_req _ = False"

fun is_close_req :: "eio_req \<Rightarrow> bool" where
  "is_close_req (Req_Close _) = True"
| "is_close_req _ = False"

text \<open>
  The references that requests hold on the object: one for each request in flight that
  is not the destructive close, and one for each queued close (taken by \<^verbatim>\<open>Close\<close>).
\<close>

definition held :: "state \<Rightarrow> nat" where
  "held db =
     cnt (\<lambda>x. fst x \<noteq> Req_Destruct) (eio db) +
     cnt (\<lambda>c. call_callback c = Fn_BeginClose) (queue db)"

text \<open>
  The ref count covers the references held, with \<open>k\<close> to spare, and \<^verbatim>\<open>handle_\<close> is
  weak exactly when the count is 0.
\<close>

definition refs_ok :: "int \<Rightarrow> state \<Rightarrow> bool" where
  "refs_ok k db \<longleftrightarrow>
     js_handle db \<noteq> Empty \<and> (js_handle db = Weak \<longleftrightarrow> refs db = 0) \<and>
     int (held db) + k \<le> refs db"

text \<open>
  Before finalization: no destructive close is in flight; at most one open request,
  and none once the connection is open or locked; the open request that has not run
  has made no engine call; of "not locked", "a close request that has not run" and "a
  close call made" at most one holds; a close call that succeeded has cleared the
  handle; a handle that an open stored is still there unless a close call was made.
\<close>

definition live :: "nat \<Rightarrow> state \<Rightarrow> bool" where
  "live n db \<longleftrightarrow>
     \<not> finalized db \<and> \<not> deleted db \<and> n \<le> length (engine db) \<and>
     cnt (\<lambda>x. fst x = Req_Destruct) (eio db) = 0 \<and>
     cnt (\<lambda>x. is_open_req (fst x)) (eio db) \<le> 1 \<and>
     (opened db \<or> locked db \<longrightarrow> cnt (\<lambda>x. is_open_req (fst x)) (eio db) = 0) \<and>
     (cnt (\<lambda>x. is_open_req (fst x) \<and> \<not> snd x) (eio db) > 0 \<longrightarrow> opens n db = []) \<and>
     (if locked db then 0 else 1) + cnt (\<lambda>x. is_close_req (fst x) \<and> \<not> snd x) (eio db) +
        length (closes n db) \<le> 1 \<and>
     (\<forall>c \<in> set (closes n db). snd c = SQLITE_OK \<longrightarrow> handle db = None) \<and>
     (\<forall>h. (Some h, SQLITE_OK) \<in> set (opens n db) \<longrightarrow> handle db = Some h \<or> closes n db \<noteq> [])"

text \<open>
  Every close call that is followed by another one failed: no close call is made after
  one that succeeded.
\<close>

definition closed_once :: "(sqlite3 option \<times> int) list \<Rightarrow> bool" where
  "closed_once cs \<longleftrightarrow> (\<forall>c \<in> set (butlast cs). snd c \<noteq> SQLITE_OK)"

text \<open>
  After finalization: the destructive close is in flight and every earlier close call
  failed; or it has run and the handle is cleared; or the object is deleted.
\<close>

definition fin :: "nat \<Rightarrow> state \<Rightarrow> bool" where
  "fin n db \<longleftrightarrow>
     finalized db \<and> refs db = 0 \<and> js_handle db = Weak \<and> n \<le> length (engine db) \<and>
     (\<forall>h. (Some h, SQLITE_OK) \<in> set (opens n db) \<longrightarrow> handle db = Some h \<or> closes n db \<noteq> []) \<and>
     (\<not> deleted db \<and> eio db = [(Req_Destruct, False)] \<and> length (closes n db) \<le> 1 \<and>
        (\<forall>c \<in> set (closes n db). snd c \<noteq> SQLITE_OK) \<or>
      \<not> deleted db \<and> eio db = [(Req_Destruct, True)] \<and> handle db = None \<and>
        closed_once (closes n db) \<or>
      deleted db \<and> eio db = [] \<and> handle db = None \<and> closed_once (closes n db))"

definition inv :: "nat \<Rightarrow> state \<Rightarrow> bool" where
  "inv n db \<longleftrightarrow> refs_ok 0 db \<and> live n db \<or> fin n db"


section \<open>Properties\<close>

subsection \<open>Construction\<close>

lemma IsInt32_arg: "(k \<le> length args \<and> IsInt32 (arg args k)) = IsInt32 (arg args k)"
  by (cases "k < length args") (auto simp: arg_def)

lemma IsFunction_arg: "(k \<le> length args \<and> IsFunction (arg args k)) = IsFunction (arg args k)"
  by (cases "k < length args") (auto simp: arg_def)

lemma Cast_Function_None: "\<not> IsFunction v \<Longrightarrow> Cast_Function v = None"
  by (cases v) auto

lemma Wrap_new: "Wrap (new_Database e) = Inr ((new_Database e)\<lparr>js_handle := Weak\<rparr>)"
  by (simp add: Wrap_def new_Database_def InternalFieldCount_def MakeWeak_def)

lemma EIO_BeginOpen_eq:
  "js_handle db \<noteq> Empty \<Longrightarrow>
     EIO_BeginOpen baton db =
       Inr (db\<lparr>ev_refs := ev_refs db + 1, eio := eio db @ [(Req_Open baton, False)],
               refs := refs db + 1, js_handle := Strong\<rparr>)"
  by (simp add: EIO_BeginOpen_def Ref_def ev_ref_def eio_custom_def)

lemma New_construct:
  assumes "require args = Inr fname"
  shows "New require e args True =
     Inr ((new_Database e)
            \<lparr>ev_refs := ev_refs e + 1,
             eio := eio e @
               [(Req_Open
                   \<lparr>callback = (if IsInt32 (arg args 1) then Cast_Function (arg args 2)
                                 else Cast_Function (arg args 1)),
                    status = 0, message = [], filename = c_string fname,
                    mode = SQLITE_OPEN_FULLMUTEX OR
                      (if IsInt32 (arg args 1) then Int32Value (arg args 1)
                       else SQLITE_OPEN_READWRITE OR SQLITE_OPEN_CREATE)\<rparr>, False)],
             refs := 1, js_handle := Strong,
             props := [(''filename'', Str fname),
                       (''mode'', Int32 (if IsInt32 (arg args 1) then Int32Value (arg args 1)
                                         else SQLITE_OPEN_READWRITE OR SQLITE_OPEN_CREATE))]\<rparr>)"
proof (cases "IsInt32 (arg args 1)")
  case True
  with assms have "New require e args True =
      Inr ((new_Database e)
            \<lparr>js_handle := Weak,
             props := [(''filename'', Str fname), (''mode'', Int32 (Int32Value (arg args 1)))],
             ev_refs := ev_refs (new_Database e) + 1,
             eio := eio (new_Database e) @
               [(Req_Open \<lparr>callback = Cast_Function (arg args 2), status = 0, message = [],
                   filename = c_string fname,
                   mode = SQLITE_OPEN_FULLMUTEX OR Int32Value (arg args 1)\<rparr>, False)],
             refs := refs (new_Database e) + 1, js_handle := Strong\<rparr>)"
    by (simp add: New_def Let_def IsInt32_arg IsFunction_arg Wrap_new EIO_BeginOpen_eq
        Cast_Function_None numeral_2_eq_2)
  with True show ?thesis
    by (simp add: new_Database_def)
next
  case False
  with assms have "New require e args True =
      Inr ((new_Database e)
            \<lparr>js_handle := Weak,
             props := [(''filename'', Str fname),
                       (''mode'', Int32 (SQLITE_OPEN_READWRITE OR SQLITE_OPEN_CREATE))],
             ev_refs := ev_refs (new_Database e) + 1,
             eio := eio (new_Database e) @
               [(Req_Open \<lparr>callback = Cast_Function (arg args 1), status = 0, message = [],
                   filename = c_string fname,
                   mode = SQLITE_OPEN_FULLMUTEX OR
                     (SQLITE_OPEN_READWRITE OR SQLITE_OPEN_CREATE)\<rparr>, False)],
             refs := refs (new_Database e) + 1, js_handle := Strong\<rparr>)"
    by (simp add: New_def Let_def IsInt32_arg IsFunction_arg Wrap_new EIO_BeginOpen_eq
        Cast_Function_None)
  with False show ?thesis
    by (simp add: new_Database_def)
qed

lemma New_Inr_require:
  "New require e args True = Inr db \<Longrightarrow> \<exists>fname. require args = Inr fname"
  by (cases "require args") (simp_all add: New_def)

lemma IsInt32_case:
  "(if IsInt32 v then Int32Value v else d) = (case v of Int32 m \<Rightarrow> m | _ \<Rightarrow> d)"
  by (cases v) simp_all

text \<open>
  C10. Called without \<^verbatim>\<open>new\<close>, \<^verbatim>\<open>Database::New\<close> throws the TypeError and returns
  with the world exactly as it found it, whatever the arguments: no connection object
  is made and nothing is handed to the worker pool.
\<close>

theorem New_not_construct_call:
  "New require e args False =
     Inl (Inr (TypeError ''Use the new keyword to create new Database objects''), e)"
  by (simp add: New_def)

text \<open>
  C9. For every construction, the mode that \<^verbatim>\<open>EIO_Open\<close> passes to
  \<^verbatim>\<open>sqlite3_open_v2\<close> is \<^verbatim>\<open>SQLITE_OPEN_FULLMUTEX\<close> OR'd with the caller's mode: argument
  1 when it is an int32, and \<^verbatim>\<open>SQLITE_OPEN_READWRITE | SQLITE_OPEN_CREATE\<close> otherwise.
\<close>

theorem open_mode:
  assumes "New require e args True = Inr db"
  shows "\<exists>fname. require args = Inr fname \<and>
           (\<forall>r. \<exists>db'. worker (length (eio e)) r db = Inr db' \<and>
                 engine db' = engine e @
                   [Sqlite3_open_v2 (c_string fname)
                      (SQLITE_OPEN_FULLMUTEX OR
                         (case arg args 1 of
                            Int32 m \<Rightarrow> m
                          | _ \<Rightarrow> SQLITE_OPEN_READWRITE OR SQLITE_OPEN_CREATE))
                      (rc r) (ppDb r)])"
proof -
  from New_Inr_require [OF assms] obtain fname where f: "require args = Inr fname" ..
  from assms have db: "db = (new_Database e)
            \<lparr>ev_refs := ev_refs e + 1,
             eio := eio e @
               [(Req_Open
                   \<lparr>callback = (if IsInt32 (arg args 1) then Cast_Function (arg args 2)
                                 else Cast_Function (arg args 1)),
                    status = 0, message = [], filename = c_string fname,
                    mode = SQLITE_OPEN_FULLMUTEX OR
                      (if IsInt32 (arg args 1) then Int32Value (arg args 1)
                       else SQLITE_OPEN_READWRITE OR SQLITE_OPEN_CREATE)\<rparr>, False)],
             refs := 1, js_handle := Strong,
             props := [(''filename'', Str fname),
                       (''mode'', Int32 (if IsInt32 (arg args 1) then Int32Value (arg args 1)
                                         else SQLITE_OPEN_READWRITE OR SQLITE_OPEN_CREATE))]\<rparr>"
    by (simp add: New_construct [of require args fname e, OF f])
  have "\<exists>db'. worker (length (eio e)) r db = Inr db' \<and>
                 engine db' = engine e @
                   [Sqlite3_open_v2 (c_string fname)
                      (SQLITE_OPEN_FULLMUTEX OR
                         (case arg args 1 of
                            Int32 m \<Rightarrow> m
                          | _ \<Rightarrow> SQLITE_OPEN_READWRITE OR SQLITE_OPEN_CREATE))
                      (rc r) (ppDb r)]" for r
    unfolding IsInt32_case [symmetric]
    by (simp add: db worker_def EIO_Open_def Let_def new_Database_def)
  with f show ?thesis by blast
qed

theorem open_mode_witness:
  "New require_string env0 [Str ''test.db'', Int32 1] True = Inr
     \<lparr>ev_refs = 1,
      eio = [(Req_Open \<lparr>callback = None, status = 0, message = [],
                filename = ''test.db'', mode = 0x10001\<rparr>, False)],
      js_calls = [], engine = [], opened = False, locked = False,
      pending = 0, queue = [], handle = None, refs = 1, js_handle = Strong,
      props = [(''filename'', Str ''test.db''), (''mode'', Int32 1)],
      finalized = False, deleted = False\<rparr> \<and>
   (\<exists>db'. worker 0 engine_ok
      \<lparr>ev_refs = 1,
       eio = [(Req_Open \<lparr>callback = None, status = 0, message = [],
                 filename = ''test.db'', mode = 0x10001\<rparr>, False)],
       js_calls = [], engine = [], opened = False, locked = False,
       pending = 0, queue = [], handle = None, refs = 1, js_handle = Strong,
       props = [(''filename'', Str ''test.db''), (''mode'', Int32 1)],
       finalized = False, deleted = False\<rparr> = Inr db' \<and>
      engine db' = [Sqlite3_open_v2 ''test.db'' 0x10001 0 (Some 1)])"
proof -
  have h: "New require_string env0 [Str ''test.db'', Int32 1] True = Inr
     \<lparr>ev_refs = 1,
      eio = [(Req_Open \<lparr>callback = None, status = 0, message = [],
                filename = ''test.db'', mode = 0x10001\<rparr>, False)],
      js_calls = [], engine = [], opened = False, locked = False,
      pending = 0, queue = [], handle = None, refs = 1, js_handle = Strong,
      props = [(''filename'', Str ''test.db''), (''mode'', Int32 1)],
      finalized = False, deleted = False\<rparr>"
    by code_simp
  from open_mode [OF h] obtain fname where
    f: "require_string [Str ''test.db'', Int32 1] = Inr fname" and
    w: "\<forall>r. \<exists>db'. worker (length (eio env0)) r
      \<lparr>ev_refs = 1,
       eio = [(Req_Open \<lparr>callback = None, status = 0, message = [],
                 filename = ''test.db'', mode = 0x10001\<rparr>, False)],
       js_calls = [], engine = [], opened = False, locked = False,
       pending = 0, queue = [], handle = None, refs = 1, js_handle = Strong,
       props = [(''filename'', Str ''test.db''), (''mode'', Int32 1)],
       finalized = False, deleted = False\<rparr> = Inr db' \<and>
      engine db' = engine env0 @
        [Sqlite3_open_v2 (c_string fname)
           (SQLITE_OPEN_FULLMUTEX OR
              (case arg [Str ''test.db'', Int32 1] 1 of
                 Int32 m \<Rightarrow> m
               | _ \<Rightarrow> SQLITE_OPEN_READWRITE OR SQLITE_OPEN_CREATE))
           (rc r) (ppDb r)]"
    by blast
  from f have fname: "fname = ''test.db''"
    by (simp add: require_string_def arg_def)
  from w [rule_format, of engine_ok] h show ?thesis
    by (simp add: fname c_string_def env0_def engine_ok_def arg_def SQLITE_OPEN_FULLMUTEX_def)
qed

subsection \<open>Schedule\<close>

text \<open>
  C7. \<^verbatim>\<open>Schedule\<close> decides in this order. On a connection that is not open and locked,
  the "Database is closed" exception (status \<^verbatim>\<open>SQLITE_MISUSE\<close>) goes to the baton's
  callback, or into an "error" event when the baton has none, and nothing else changes:
  the record is not queued. Otherwise, on a connection that is not open, or locked, or
  for an exclusive request while \<open>pending > 0\<close>, the record is appended to the queue and
  nothing else changes. Otherwise the work function runs at once.
\<close>

theorem Schedule_cases:
  "(\<not> opened db \<and> locked db \<longrightarrow>
      Schedule cb baton excl db =
        Inr (db\<lparr>js_calls := js_calls db @
               [case callback baton of
                  Some f \<Rightarrow> TRY_CATCH_CALL f [Exception ''Database is closed'' SQLITE_MISUSE]
                | None \<Rightarrow>
                    EMIT_EVENT [Str ''error'', Exception ''Database is closed'' SQLITE_MISUSE]]\<rparr>)) \<and>
   (\<not> (\<not> opened db \<and> locked db) \<and> (\<not> opened db \<or> locked db \<or> (excl \<and> pending db > 0)) \<longrightarrow>
      Schedule cb baton excl db =
        Inr (db\<lparr>queue := queue db @
               [\<lparr>call_callback = cb, call_baton = baton, exclusive = excl\<rparr>]\<rparr>)) \<and>
   (\<not> (\<not> opened db \<and> locked db) \<and> \<not> (\<not> opened db \<or> locked db \<or> (excl \<and> pending db > 0)) \<longrightarrow>
      Schedule cb baton excl db = invoke cb baton db)"
  by (simp add: Schedule_def try_catch_call_def emit_event_def js_def closed_exception_def
           split: option.splits)

theorem Schedule_cases_witness:
  "\<not> opened db_closed \<and> locked db_closed \<and>
   Schedule Fn_BeginClose (baton_cb 7) True db_closed =
     Inr (db_closed\<lparr>js_calls := js_calls db_closed @
            [TRY_CATCH_CALL 7 [Exception ''Database is closed'' SQLITE_MISUSE]]\<rparr>) \<and>
   \<not> opened fresh \<and> \<not> locked fresh \<and>
   Schedule Fn_BeginShared (baton_cb 7) False fresh =
     Inr (fresh\<lparr>queue := queue fresh @
            [\<lparr>call_callback = Fn_BeginShared, call_baton = baton_cb 7, exclusive = False\<rparr>]\<rparr>) \<and>
   opened db_waiting \<and> \<not> locked db_waiting \<and> pending db_waiting > 0 \<and>
   Schedule Fn_BeginClose (baton_cb 7) True db_waiting =
     Inr (db_waiting\<lparr>queue := queue db_waiting @
            [\<lparr>call_callback = Fn_BeginClose, call_baton = baton_cb 7, exclusive = True\<rparr>]\<rparr>) \<and>
   opened db_open \<and> \<not> locked db_open \<and> pending db_open = 0 \<and>
   Schedule Fn_BeginClose (baton_cb 7) True db_open = invoke Fn_BeginClose (baton_cb 7) db_open"
proof -
  have c: "\<not> opened db_closed \<and> locked db_closed" by code_simp
  have f: "\<not> opened fresh \<and> \<not> locked fresh" by code_simp
  have w: "opened db_waiting \<and> \<not> locked db_waiting \<and> pending db_waiting > 0" by code_simp
  have p: "opened db_open \<and> \<not> locked db_open \<and> pending db_open = 0" by code_simp
  show ?thesis
    using c f w p
      Schedule_cases [of db_closed Fn_BeginClose "baton_cb 7" True]
      Schedule_cases [of fresh Fn_BeginShared "baton_cb 7" False]
      Schedule_cases [of db_waiting Fn_BeginClose "baton_cb 7" True]
      Schedule_cases [of db_open Fn_BeginClose "baton_cb 7" True]
    by (simp add: baton_cb_def)
qed

subsection \<open>The assertions of EIO_BeginClose\<close>

lemma holds_Inr [simp]: "holds P (Inr db) = P db"
  by (simp add: holds_def)

lemma holds_Inl [simp]: "holds P (Inl a) = (a \<notin> BeginClose_assertions)"
  by (simp add: holds_def)

lemma queue_invoke: "invoke c b db = Inr db' \<Longrightarrow> queue db' = queue db"
  by (cases c)
     (auto simp: EIO_BeginClose_def EIO_BeginShared_def Ref_def eio_custom_def ev_ref_def
           split: if_splits sum.splits)

lemma Ref_holds: "Ref db = Inl a \<Longrightarrow> a \<notin> BeginClose_assertions"
  by (auto simp: Ref_def BeginClose_assertions_def split: if_splits)

lemma Unref_holds: "Unref db = Inl a \<Longrightarrow> a \<notin> BeginClose_assertions"
  by (auto simp: Unref_def Let_def BeginClose_assertions_def split: if_splits)

lemma queue_Ref: "Ref db = Inr db' \<Longrightarrow> queue db' = queue db"
  by (auto simp: Ref_def split: if_splits)

lemma queue_Unref: "Unref db = Inr db' \<Longrightarrow> queue db' = queue db"
  by (auto simp: Unref_def MakeWeak_def Let_def split: if_splits)

lemma invoke_holds:
  assumes "opened db" "\<not> locked db" "c = Fn_BeginClose \<longrightarrow> pending db = 0"
  shows "holds (\<lambda>db'. queue db' = queue db) (invoke c b db)"
proof (cases c)
  case Fn_BeginClose
  with assms show ?thesis
    by (simp add: EIO_BeginClose_def eio_custom_def)
next
  case Fn_BeginShared
  then show ?thesis
    by (cases "Ref db") (auto simp: EIO_BeginShared_def eio_custom_def ev_ref_def
        dest: Ref_holds queue_Ref)
qed

lemma Process_loop_holds:
  "closes_exclusive db \<Longrightarrow> holds closes_exclusive (Process_loop db)"
proof (induction db rule: Process_loop.induct)
  case (1 db)
  show ?case
  proof (cases "opened db \<and> \<not> locked db \<and> queue db \<noteq> []")
    case False
    with "1.prems" show ?thesis
      by (auto simp: Process_loop.simps [of db] Let_def)
  next
    case run: True
    define call where "call = hd (queue db)"
    show ?thesis
    proof (cases "exclusive call \<and> pending db > 0")
      case True
      with run "1.prems" show ?thesis
        by (auto simp: Process_loop.simps [of db] call_def Let_def)
    next
      case False
      from run have "call \<in> set (queue db)"
        by (simp add: call_def)
      with "1.prems" False have "call_callback call = Fn_BeginClose \<longrightarrow> pending db = 0"
        by (auto simp: closes_exclusive_def)
      with run have h: "holds (\<lambda>db'. queue db' = queue db)
          (invoke (call_callback call) (call_baton call) db)"
        by (intro invoke_holds) simp_all
      show ?thesis
      proof (cases "invoke (call_callback call) (call_baton call) db")
        case (Inl a)
        with h run False show ?thesis
          by (auto simp: Process_loop.simps [of db] call_def Let_def)
      next
        case (Inr db')
        with h have q: "queue db' = queue db" by simp
        with "1.prems" run have "closes_exclusive (db'\<lparr>queue := tl (queue db')\<rparr>)"
          by (auto simp: closes_exclusive_def dest: list.set_sel(2))
        with "1.IH" [OF run call_def False Inr]
        have "holds closes_exclusive (Process_loop (db'\<lparr>queue := tl (queue db')\<rparr>))" .
        with run False Inr show ?thesis
          by (auto simp: Process_loop.simps [of db] call_def Let_def)
      qed
    qed
  qed
qed

lemma Process_holds:
  "closes_exclusive db \<Longrightarrow> holds closes_exclusive (Process db)"
  by (simp add: Process_def Process_loop_holds)
     (simp add: closes_exclusive_def emit_event_def js_def)


lemma holds_mono: "holds P r \<Longrightarrow> (\<And>db. P db \<Longrightarrow> Q db) \<Longrightarrow> holds Q r"
  by (cases r) simp_all

lemmas frame_defs = ev_ref_def ev_unref_def eio_custom_def js_def emit_event_def
  try_catch_call_def MakeWeak_def delete_db_def

lemma Schedule_holds:
  assumes "closes_exclusive db" "cb = Fn_BeginClose \<longrightarrow> excl"
  shows "holds closes_exclusive (Schedule cb b excl db)"
proof (cases "\<not> opened db \<or> locked db \<or> (excl \<and> pending db > 0)")
  case True
  with assms show ?thesis
    by (auto simp: Schedule_def closes_exclusive_def frame_defs split: option.splits)
next
  case False
  with assms have "holds (\<lambda>db'. queue db' = queue db) (invoke cb b db)"
    by (intro invoke_holds) auto
  then have "holds closes_exclusive (invoke cb b db)"
    by (rule holds_mono) (use assms(1) in \<open>simp add: closes_exclusive_def\<close>)
  with False show ?thesis
    by (auto simp: Schedule_def)
qed

lemma Close_holds:
  assumes "closes_exclusive db"
  shows "holds closes_exclusive (Close cb db)"
proof (cases "Ref db")
  case (Inl a)
  then show ?thesis by (simp add: Close_def Ref_holds)
next
  case (Inr db1)
  with assms have "closes_exclusive (ev_ref db1)"
    by (simp add: closes_exclusive_def frame_defs queue_Ref [OF Inr])
  then have "holds closes_exclusive
      (Schedule Fn_BeginClose \<lparr>callback = cb, status = 0, message = []\<rparr> True (ev_ref db1))"
    by (rule Schedule_holds) simp
  with Inr show ?thesis by (simp add: Close_def Let_def)
qed



lemma EIO_AfterOpen_holds:
  assumes "closes_exclusive db"
  shows "holds closes_exclusive (EIO_AfterOpen baton db)"
proof (cases "Unref db")
  case (Inl a)
  then show ?thesis by (simp add: EIO_AfterOpen_def Unref_holds)
next
  case (Inr db1)
  with assms have c: "closes_exclusive db1"
    by (simp add: closes_exclusive_def queue_Unref [OF Inr])
  have p: "holds closes_exclusive (Process d)" if "queue d = queue db1" for d
    using that c by (intro Process_holds) (simp add: closes_exclusive_def)
  have i: "closes_exclusive d" if "queue d = queue db1" for d
    using that c by (simp add: closes_exclusive_def)
  show ?thesis
    by (simp add: EIO_AfterOpen_def Inr Let_def p i frame_defs split: option.splits)
qed

lemma EIO_AfterClose_holds:
  assumes "closes_exclusive db"
  shows "holds closes_exclusive (EIO_AfterClose baton db)"
proof (cases "Unref (ev_unref db)")
  case (Inl a)
  then show ?thesis by (simp add: EIO_AfterClose_def Unref_holds)
next
  case (Inr db1)
  with assms have c: "closes_exclusive db1"
    by (simp add: closes_exclusive_def queue_Unref [OF Inr] ev_unref_def)
  have p: "holds closes_exclusive (Process d)" if "queue d = queue db1" for d
    using that c by (intro Process_holds) (simp add: closes_exclusive_def)
  have i: "closes_exclusive d" if "queue d = queue db1" for d
    using that c by (simp add: closes_exclusive_def)
  show ?thesis
    by (simp add: EIO_AfterClose_def Inr Let_def p i js_def emit_event_def try_catch_call_def
        split: option.splits)
qed

lemma EIO_AfterShared_holds:
  assumes "closes_exclusive db"
  shows "holds closes_exclusive (EIO_AfterShared baton db)"
proof (cases "Unref db")
  case (Inl a)
  then show ?thesis by (simp add: EIO_AfterShared_def Unref_holds)
next
  case (Inr db1)
  with assms have c: "closes_exclusive db1"
    by (simp add: closes_exclusive_def queue_Unref [OF Inr])
  have p: "holds closes_exclusive (Process d)" if "queue d = queue db1" for d
    using that c by (intro Process_holds) (simp add: closes_exclusive_def)
  show ?thesis
    by (simp add: EIO_AfterShared_def Inr Let_def p frame_defs split: option.splits)
qed

lemma Not_enabled_holds [simp]: "Not_enabled \<notin> BeginClose_assertions"
  by (simp add: BeginClose_assertions_def)

lemma worker_holds: "closes_exclusive db \<Longrightarrow> holds closes_exclusive (worker i r db)"
  by (simp add: worker_def Let_def EIO_Open_def EIO_Close_def EIO_Destruct_def EIO_Shared_def
        closes_exclusive_def split: eio_req.splits)

lemma complete_holds:
  assumes "closes_exclusive db"
  shows "holds closes_exclusive (complete i db)"
proof -
  from assms have c: "closes_exclusive (db\<lparr>eio := remove_nth i (eio db)\<rparr>)"
    by (simp add: closes_exclusive_def)
  from assms have d: "closes_exclusive (EIO_AfterDestruct (db\<lparr>eio := remove_nth i (eio db)\<rparr>))"
    by (simp add: closes_exclusive_def EIO_AfterDestruct_def frame_defs)
  show ?thesis
    by (simp add: complete_def Let_def d EIO_AfterOpen_holds [OF c] EIO_AfterClose_holds [OF c]
        EIO_AfterShared_holds [OF c] split: eio_req.splits)
qed

lemma step_holds:
  assumes "closes_exclusive db"
  shows "holds closes_exclusive (step e db)"
proof (cases e)
  case (Js_close cb)
  with assms show ?thesis by (simp add: Close_holds)
next
  case (Js_shared b)
  with assms show ?thesis by (simp add: Schedule_holds)
next
  case (Worker i r)
  with assms show ?thesis by (simp add: worker_holds)
next
  case (Complete i)
  with assms show ?thesis by (simp add: complete_holds)
next
  case Gc
  with assms show ?thesis
    by (simp add: Destruct_def frame_defs closes_exclusive_def)
qed

lemma run_holds: "closes_exclusive db \<Longrightarrow> holds closes_exclusive (run es db)"
proof (induction es arbitrary: db)
  case Nil
  then show ?case by simp
next
  case (Cons e es)
  from step_holds [OF Cons.prems, of e] Cons.IH show ?case
    by (cases "step e db") simp_all
qed

text \<open>
  C6. Every queued \<^verbatim>\<open>EIO_BeginClose\<close> record is exclusive, since \<^verbatim>\<open>Close\<close> schedules
  it so; a fresh connection's queue is empty. From such a state no sequence of events
  ever fails one of the three assertions of \<^verbatim>\<open>EIO_BeginClose\<close>: whenever
  \<^verbatim>\<open>Schedule\<close> or \<^verbatim>\<open>Process\<close> invokes it, the connection is open, not locked, and
  \<open>pending = 0\<close>. With \<open>pending = 0\<close> on an open, unlocked connection \<^verbatim>\<open>Schedule\<close>
  dispatches the close at once; with \<open>pending > 0\<close> it queues the exclusive record, and
  \<^verbatim>\<open>Process\<close> leaves an exclusive record at the queue front where it is.
\<close>

theorem BeginClose_assertions_hold:
  assumes "closes_exclusive db"
  shows "run es db \<notin> Inl ` BeginClose_assertions \<and>
    (opened db \<and> \<not> locked db \<and> pending db = 0 \<longrightarrow>
       Schedule Fn_BeginClose baton True db =
         Inr (db\<lparr>locked := True, eio := eio db @ [(Req_Close baton, False)]\<rparr>)) \<and>
    (opened db \<and> \<not> locked db \<and> pending db > 0 \<longrightarrow>
       Schedule Fn_BeginClose baton True db =
         Inr (db\<lparr>queue := queue db @
                [\<lparr>call_callback = Fn_BeginClose, call_baton = baton, exclusive = True\<rparr>]\<rparr>)) \<and>
    (opened db \<and> \<not> locked db \<and> pending db > 0 \<and> queue db \<noteq> [] \<and>
       exclusive (hd (queue db)) \<longrightarrow> Process db = Inr db)"
proof -
  from run_holds [OF assms, of es]
  have "run es db \<notin> Inl ` BeginClose_assertions"
    by (cases "run es db") auto
  moreover have "opened db \<and> \<not> locked db \<and> pending db = 0 \<longrightarrow>
       Schedule Fn_BeginClose baton True db =
         Inr (db\<lparr>locked := True, eio := eio db @ [(Req_Close baton, False)]\<rparr>)"
    by (simp add: Schedule_def EIO_BeginClose_def eio_custom_def)
  moreover have "opened db \<and> \<not> locked db \<and> pending db > 0 \<longrightarrow>
       Schedule Fn_BeginClose baton True db =
         Inr (db\<lparr>queue := queue db @
                [\<lparr>call_callback = Fn_BeginClose, call_baton = baton, exclusive = True\<rparr>]\<rparr>)"
    by (simp add: Schedule_def)
  moreover have "opened db \<and> \<not> locked db \<and> pending db > 0 \<and> queue db \<noteq> [] \<and>
       exclusive (hd (queue db)) \<longrightarrow> Process db = Inr db"
    by (simp add: Process_def Process_loop.simps [of db])
  ultimately show ?thesis by blast
qed

theorem BeginClose_assertions_hold_witness:
  "closes_exclusive db_waiting \<and>
   run [Worker 0 engine_ok, Complete 0] db_waiting \<notin> Inl ` BeginClose_assertions \<and>
   opened db_open \<and> \<not> locked db_open \<and> pending db_open = 0 \<and>
   Schedule Fn_BeginClose (baton_cb 2) True db_open =
     Inr (db_open\<lparr>locked := True, eio := eio db_open @ [(Req_Close (baton_cb 2), False)]\<rparr>) \<and>
   opened db_waiting \<and> \<not> locked db_waiting \<and> pending db_waiting > 0 \<and>
   queue db_waiting \<noteq> [] \<and> exclusive (hd (queue db_waiting)) \<and>
   Schedule Fn_BeginClose (baton_cb 3) True db_waiting =
     Inr (db_waiting\<lparr>queue := queue db_waiting @
            [\<lparr>call_callback = Fn_BeginClose, call_baton = baton_cb 3, exclusive = True\<rparr>]\<rparr>) \<and>
   Process db_waiting = Inr db_waiting"
proof -
  have c: "closes_exclusive db_waiting" by code_simp
  have o: "closes_exclusive db_open" by code_simp
  have w: "opened db_waiting \<and> \<not> locked db_waiting \<and> pending db_waiting > 0 \<and>
      queue db_waiting \<noteq> [] \<and> exclusive (hd (queue db_waiting))" by code_simp
  have p: "opened db_open \<and> \<not> locked db_open \<and> pending db_open = 0" by code_simp
  show ?thesis
    using c w p
      BeginClose_assertions_hold [OF c, of "[Worker 0 engine_ok, Complete 0]" "baton_cb 3"]
      BeginClose_assertions_hold [OF o, of "[]" "baton_cb 2"]
    by simp
qed

subsection \<open>Evaluations\<close>


lemma fresh_cb_constructed:
  "New require_string env0 [Str ''test.db'', Function 9] True = Inr fresh_cb"
  by code_simp

lemma db_open_run: "run [Worker 0 engine_ok, Complete 0] fresh = Inr db_open"
  by code_simp

lemma db_waiting_run: "run [Js_shared (baton_cb 1), Js_close (Some 2)] db_open = Inr db_waiting"
  by code_simp

lemma db_closed_run: "run [Js_close None, Worker 0 engine_ok, Complete 0] db_open = Inr db_closed"
  by code_simp

lemma Ref_Inr:
  "Ref db = Inr db1 \<Longrightarrow>
     js_handle db \<noteq> Empty \<and> db1 = db\<lparr>refs := refs db + 1, js_handle := Strong\<rparr>"
  by (auto simp: Ref_def split: if_splits)

lemma Unref_Inr:
  "Unref db = Inr db1 \<Longrightarrow>
     js_handle db = Strong \<and> refs db > 0 \<and>
     db1 = (if refs db = 1 then db\<lparr>refs := 0, js_handle := Weak\<rparr>
            else db\<lparr>refs := refs db - 1\<rparr>)"
  by (cases "js_handle db") (auto simp: Unref_def Let_def MakeWeak_def split: if_splits)

text \<open>
  What the three evaluations below show at one input holds in general: \<^verbatim>\<open>Process\<close> on
  a closed connection emits one event and leaves the queue alone; \<^verbatim>\<open>Close\<close> on a closed
  connection keeps the reference it took; a close that fails leaves \<open>locked\<close> as
  \<^verbatim>\<open>EIO_BeginClose\<close> set it.
\<close>

lemma Process_closed:
  assumes "\<not> opened db" "locked db" "queue db \<noteq> []"
  shows "Process db =
    Inr (db\<lparr>js_calls := js_calls db @ [EMIT_EVENT [Str ''error'', closed_exception]]\<rparr>)"
  using assms by (simp add: Process_def emit_event_def js_def)

lemma Close_closed:
  assumes "\<not> opened db" "locked db" "js_handle db \<noteq> Empty"
  shows "Close cb db =
    Inr (db\<lparr>refs := refs db + 1, js_handle := Strong, ev_refs := ev_refs db + 1,
            js_calls := js_calls db @
              [case cb of
                 Some f \<Rightarrow> TRY_CATCH_CALL f [closed_exception]
               | None \<Rightarrow> EMIT_EVENT [Str ''error'', closed_exception]]\<rparr>)"
  using assms
  by (simp add: Close_def Ref_def ev_ref_def Schedule_def try_catch_call_def emit_event_def
      js_def Let_def split: option.splits)

lemma EIO_AfterClose_failed:
  assumes "status baton \<noteq> SQLITE_OK" "opened db" "Unref (ev_unref db) = Inr db1"
  shows "EIO_AfterClose baton db =
    Inr (db1\<lparr>js_calls := js_calls db1 @
            [case callback baton of
               Some f \<Rightarrow> TRY_CATCH_CALL f [Exception (message baton) (status baton)]
             | None \<Rightarrow> EMIT_EVENT [Str ''error'', Exception (message baton) (status baton)]]\<rparr>) \<and>
    locked db1 = locked db \<and> opened db1 \<and> handle db1 = handle db"
proof -
  from Unref_Inr [OF assms(3)] assms(2)
  have f: "locked db1 = locked db" "opened db1" "handle db1 = handle db"
    by (auto simp: ev_unref_def split: if_splits)
  with assms(1,3) show ?thesis
    by (simp add: EIO_AfterClose_def Let_def try_catch_call_def emit_event_def js_def
        split: option.splits)
qed

text \<open>
  C2. \<^verbatim>\<open>new Database("test.db")\<close> opens; \<^verbatim>\<open>close()\<close> is dispatched; \<^verbatim>\<open>close(f2)\<close> and
  \<^verbatim>\<open>close(f3)\<close> arrive while the connection is locked and are queued; the first close
  succeeds. \<^verbatim>\<open>Process\<close> then finds the connection closed and the queue non-empty: it
  emits one "error" event and returns. Both records are still in the queue, neither
  \<open>f2\<close> nor \<open>f3\<close> has been called, and the two references taken by \<^verbatim>\<open>Close\<close> are still
  held.
\<close>

theorem Process_closed_keeps_queue:
  "run [Js_close None, Js_close (Some 2), Js_close (Some 3), Worker 0 engine_ok, Complete 0]
       db_open =
     Inr (after [Js_close None, Js_close (Some 2), Js_close (Some 3), Worker 0 engine_ok,
                 Complete 0] db_open) \<and>
   \<not> opened (after [Js_close None, Js_close (Some 2), Js_close (Some 3), Worker 0 engine_ok,
                    Complete 0] db_open) \<and>
   locked (after [Js_close None, Js_close (Some 2), Js_close (Some 3), Worker 0 engine_ok,
                  Complete 0] db_open) \<and>
   queue (after [Js_close None, Js_close (Some 2), Js_close (Some 3), Worker 0 engine_ok,
                 Complete 0] db_open) = [close_call 2, close_call 3] \<and>
   js_calls (after [Js_close None, Js_close (Some 2), Js_close (Some 3), Worker 0 engine_ok,
                    Complete 0] db_open) =
     [EMIT_EVENT [Str ''open''], EMIT_EVENT [Str ''close''],
      EMIT_EVENT [Str ''error'', Exception ''Database is closed'' 21]] \<and>
   refs (after [Js_close None, Js_close (Some 2), Js_close (Some 3), Worker 0 engine_ok,
                Complete 0] db_open) = 2 \<and>
   eio (after [Js_close None, Js_close (Some 2), Js_close (Some 3), Worker 0 engine_ok,
               Complete 0] db_open) = []"
  by code_simp

text \<open>
  C3. On an open connection \<^verbatim>\<open>close(f1)\<close> is dispatched and the engine answers
  \<^verbatim>\<open>SQLITE_BUSY\<close>. Before the close began \<open>locked\<close> was false. After
  \<^verbatim>\<open>EIO_AfterClose\<close> the connection is open, the handle is present, \<open>f1\<close> has received
  the error, and \<open>locked\<close> is still true. The retried \<^verbatim>\<open>close(f2)\<close> is queued: nothing
  is handed to the worker pool, and \<open>f2\<close> is not called.
\<close>

theorem failed_close_stays_locked:
  "\<not> locked db_open \<and>
   run [Js_close (Some 1), Worker 0 engine_busy, Complete 0] db_open =
     Inr (after [Js_close (Some 1), Worker 0 engine_busy, Complete 0] db_open) \<and>
   opened (after [Js_close (Some 1), Worker 0 engine_busy, Complete 0] db_open) \<and>
   handle (after [Js_close (Some 1), Worker 0 engine_busy, Complete 0] db_open) = Some 1 \<and>
   locked (after [Js_close (Some 1), Worker 0 engine_busy, Complete 0] db_open) \<and>
   js_calls (after [Js_close (Some 1), Worker 0 engine_busy, Complete 0] db_open) =
     [EMIT_EVENT [Str ''open''], TRY_CATCH_CALL 1 [Exception ''database is locked'' 5]] \<and>
   run [Js_close (Some 1), Worker 0 engine_busy, Complete 0, Js_close (Some 2)] db_open =
     Inr (after [Js_close (Some 1), Worker 0 engine_busy, Complete 0, Js_close (Some 2)]
            db_open) \<and>
   queue (after [Js_close (Some 1), Worker 0 engine_busy, Complete 0, Js_close (Some 2)]
            db_open) = [close_call 2] \<and>
   eio (after [Js_close (Some 1), Worker 0 engine_busy, Complete 0, Js_close (Some 2)]
          db_open) = [] \<and>
   js_calls (after [Js_close (Some 1), Worker 0 engine_busy, Complete 0, Js_close (Some 2)]
               db_open) =
     [EMIT_EVENT [Str ''open''], TRY_CATCH_CALL 1 [Exception ''database is locked'' 5]]"
  by code_simp

text \<open>
  C8. On a connection whose close has succeeded nothing is in flight or queued and the
  ref count is 0. \<^verbatim>\<open>close(f2)\<close> takes a reference and marks the event loop, then
  \<^verbatim>\<open>Schedule\<close> hands the "Database is closed" error to \<open>f2\<close> and returns: no request
  is dispatched or queued whose completion would release them, and the ref count and
  the event loop's count stay at 1.
\<close>

theorem Close_on_closed_keeps_ref:
  "refs db_closed = 0 \<and> ev_refs db_closed = 0 \<and> eio db_closed = [] \<and> queue db_closed = [] \<and>
   \<not> opened db_closed \<and> locked db_closed \<and>
   run [Js_close (Some 2)] db_closed =
     Inr (db_closed
           \<lparr>ev_refs := 1, refs := 1, js_handle := Strong,
            js_calls := js_calls db_closed @
              [TRY_CATCH_CALL 2 [Exception ''Database is closed'' 21]]\<rparr>)"
  by code_simp

text \<open>
  C1, as stated, fails. One shared request is in flight (\<open>pending = 1\<close>) and
  \<^verbatim>\<open>close(f2)\<close> waits in the queue. A shared request submitted now is not queued behind
  the close: \<^verbatim>\<open>Schedule\<close> runs its work at once, so it is dispatched while the close,
  submitted before it, is still in the queue.
\<close>

theorem shared_overtakes_waiting_close:
  "run [Worker 0 engine_ok, Complete 0, Js_shared (baton_cb 1), Js_close (Some 2)] fresh =
     Inr db_waiting \<and>
   opened db_waiting \<and> \<not> locked db_waiting \<and> pending db_waiting = 1 \<and>
   eio db_waiting = [(Req_Shared (baton_cb 1), False)] \<and>
   queue db_waiting = [close_call 2] \<and>
   run [Js_shared (baton_cb 3)] db_waiting =
     Inr (db_waiting
           \<lparr>ev_refs := 3, refs := 3, pending := 2,
            eio := [(Req_Shared (baton_cb 1), False), (Req_Shared (baton_cb 3), False)]\<rparr>) \<and>
   queue (db_waiting
           \<lparr>ev_refs := 3, refs := 3, pending := 2,
            eio := [(Req_Shared (baton_cb 1), False), (Req_Shared (baton_cb 3), False)]\<rparr>) =
     [close_call 2]"
  by code_simp

text \<open>
  C4. \<^verbatim>\<open>new Database("test.db", f9)\<close> whose open fails: \<open>f9\<close> receives the engine's
  error and no "open" event is emitted; the connection is then neither open nor locked,
  nothing is in flight and the ref count is 0. \<^verbatim>\<open>close(f2)\<close> submitted now is not
  failed: \<^verbatim>\<open>Close\<close> takes a reference and marks the event loop, and \<^verbatim>\<open>Schedule\<close>
  appends the record to the queue. \<open>f2\<close> is not called and no "Database is closed"
  error is delivered; nothing is handed to the worker pool, so nothing will release the
  reference: the ref count and the event loop's count stay at 1, and the object cannot
  be finalized. A \<^verbatim>\<open>close(f2)\<close> submitted before the open failed ends in the same
  state: \<^verbatim>\<open>EIO_AfterOpen\<close> leaves its record in the queue.
\<close>

theorem failed_open_strands_close:
  "run [Worker 0 engine_cantopen, Complete 0] fresh_cb = Inr db_open_failed \<and>
   \<not> opened db_open_failed \<and> \<not> locked db_open_failed \<and> eio db_open_failed = [] \<and>
   refs db_open_failed = 0 \<and> ev_refs db_open_failed = 0 \<and> queue db_open_failed = [] \<and>
   js_calls db_open_failed =
     [TRY_CATCH_CALL 9 [Exception ''unable to open database file'' 14]] \<and>
   run [Js_close (Some 2)] db_open_failed =
     Inr (db_open_failed
           \<lparr>ev_refs := 1, refs := 1, js_handle := Strong, queue := [close_call 2]\<rparr>) \<and>
   step Gc
       (db_open_failed
           \<lparr>ev_refs := 1, refs := 1, js_handle := Strong, queue := [close_call 2]\<rparr>) =
     Inl Not_enabled \<and>
   run [Js_close (Some 2), Worker 0 engine_cantopen, Complete 0] fresh_cb =
     Inr (db_open_failed
           \<lparr>ev_refs := 1, refs := 1, js_handle := Strong, queue := [close_call 2]\<rparr>)"
  by code_simp


subsection \<open>The order in which records are dispatched\<close>

lemma invoke_dispatches:
  assumes "invoke (call_callback c) (call_baton c) db = Inr db1"
  shows "eio db1 = eio db @ [(request_of c, False)] \<and> queue db1 = queue db"
proof (cases "call_callback c")
  case Fn_BeginClose
  with assms show ?thesis
    by (auto simp: EIO_BeginClose_def eio_custom_def request_of_def split: if_splits)
next
  case Fn_BeginShared
  with assms show ?thesis
    by (cases "Ref db")
       (auto simp: EIO_BeginShared_def eio_custom_def ev_ref_def request_of_def Ref_def
             split: if_splits)
qed

lemma Process_loop_prefix:
  "Process_loop db = Inr db' \<Longrightarrow>
     \<exists>k. queue db' = drop k (queue db) \<and>
         eio db' = eio db @ map (\<lambda>c. (request_of c, False)) (take k (queue db))"
proof (induction db rule: Process_loop.induct)
  case (1 db)
  show ?case
  proof (cases "opened db \<and> \<not> locked db \<and> queue db \<noteq> []")
    case False
    with "1.prems" have "db' = db"
      by (auto simp: Process_loop.simps [of db])
    then have "queue db' = drop 0 (queue db) \<and>
         eio db' = eio db @ map (\<lambda>c. (request_of c, False)) (take 0 (queue db))"
      by simp
    then show ?thesis by blast
  next
    case run: True
    define call where "call = hd (queue db)"
    show ?thesis
    proof (cases "exclusive call \<and> pending db > 0")
      case True
      with run "1.prems" have "db' = db"
        by (auto simp: Process_loop.simps [of db] call_def Let_def)
      then have "queue db' = drop 0 (queue db) \<and>
         eio db' = eio db @ map (\<lambda>c. (request_of c, False)) (take 0 (queue db))"
        by simp
      then show ?thesis by blast
    next
      case False
      show ?thesis
      proof (cases "invoke (call_callback call) (call_baton call) db")
        case (Inl a)
        with run False "1.prems" show ?thesis
          by (auto simp: Process_loop.simps [of db] call_def Let_def)
      next
        case (Inr db1)
        from invoke_dispatches [OF Inr]
        have e: "eio db1 = eio db @ [(request_of call, False)]" and q: "queue db1 = queue db"
          by simp_all
        from run False Inr "1.prems"
        have "Process_loop (db1\<lparr>queue := tl (queue db1)\<rparr>) = Inr db'"
          by (auto simp: Process_loop.simps [of db] call_def Let_def)
        from "1.IH" [OF run call_def False Inr this]
        obtain k where k: "queue db' = drop k (tl (queue db1))"
          "eio db' = eio db1 @ map (\<lambda>c. (request_of c, False)) (take k (tl (queue db1)))"
          by auto
        from run obtain c cs where cs: "queue db = c # cs"
          by (cases "queue db") auto
        with k e q have "queue db' = drop (Suc k) (queue db) \<and>
          eio db' = eio db @ map (\<lambda>c. (request_of c, False)) (take (Suc k) (queue db))"
          by (simp add: call_def)
        then show ?thesis by blast
      qed
    qed
  qed
qed

lemma Process_prefix:
  assumes "Process db = Inr db'"
  shows "\<exists>k. queue db' = drop k (queue db) \<and>
         eio db' = eio db @ map (\<lambda>c. (request_of c, False)) (take k (queue db))"
proof (cases "\<not> opened db \<and> locked db \<and> queue db \<noteq> []")
  case True
  with assms have "queue db' = drop 0 (queue db) \<and>
         eio db' = eio db @ map (\<lambda>c. (request_of c, False)) (take 0 (queue db))"
    by (auto simp: Process_def emit_event_def js_def)
  then show ?thesis by blast
next
  case False
  with assms have "Process_loop db = Inr db'"
    by (auto simp: Process_def)
  then show ?thesis by (rule Process_loop_prefix)
qed

text \<open>
  C1, amended. \<^verbatim>\<open>Process\<close> dispatches queued records strictly in queue order: what it
  hands to the worker pool is a prefix of the queue, in order, and what it leaves is the
  rest. It dispatches nothing while an exclusive record waits at the queue front with
  \<open>pending > 0\<close>. \<^verbatim>\<open>Schedule\<close> changes the queue only by appending the new record at
  the back. But a shared record submitted while the connection is open and not locked is
  not queued: its work runs at once, whatever the queue holds, also when an exclusive
  record submitted earlier is waiting there.
\<close>

theorem drain_in_queue_order:
  "(Process db = Inr db' \<longrightarrow>
      (\<exists>k. queue db' = drop k (queue db) \<and>
           eio db' = eio db @ map (\<lambda>c. (request_of c, False)) (take k (queue db)))) \<and>
   (opened db \<and> \<not> locked db \<and> queue db \<noteq> [] \<and> exclusive (hd (queue db)) \<and> pending db > 0 \<longrightarrow>
      Process db = Inr db) \<and>
   (Schedule cb baton excl db = Inr db'' \<longrightarrow>
      queue db'' = queue db \<or>
      queue db'' = queue db @ [\<lparr>call_callback = cb, call_baton = baton, exclusive = excl\<rparr>]) \<and>
   (opened db \<and> \<not> locked db \<longrightarrow> Schedule cb baton False db = invoke cb baton db)"
proof -
  have "Process db = Inr db' \<longrightarrow>
      (\<exists>k. queue db' = drop k (queue db) \<and>
           eio db' = eio db @ map (\<lambda>c. (request_of c, False)) (take k (queue db)))"
    using Process_prefix by blast
  moreover have "opened db \<and> \<not> locked db \<and> queue db \<noteq> [] \<and> exclusive (hd (queue db)) \<and>
      pending db > 0 \<longrightarrow> Process db = Inr db"
    by (simp add: Process_def Process_loop.simps [of db])
  moreover have "Schedule cb baton excl db = Inr db'' \<longrightarrow>
      queue db'' = queue db \<or>
      queue db'' = queue db @ [\<lparr>call_callback = cb, call_baton = baton, exclusive = excl\<rparr>]"
  proof
    assume s: "Schedule cb baton excl db = Inr db''"
    show "queue db'' = queue db \<or>
      queue db'' = queue db @ [\<lparr>call_callback = cb, call_baton = baton, exclusive = excl\<rparr>]"
    proof (cases "\<not> opened db \<or> locked db \<or> (excl \<and> pending db > 0)")
      case True
      with s show ?thesis
        by (auto simp: Schedule_def try_catch_call_def emit_event_def js_def
            split: option.splits if_splits)
    next
      case False
      with s have "invoke cb baton db = Inr db''"
        by (auto simp: Schedule_def)
      from invoke_dispatches [of "\<lparr>call_callback = cb, call_baton = baton, exclusive = excl\<rparr>" db db'']
        this show ?thesis by simp
    qed
  qed
  moreover have "opened db \<and> \<not> locked db \<longrightarrow> Schedule cb baton False db = invoke cb baton db"
    by (simp add: Schedule_def)
  ultimately show ?thesis by blast
qed


theorem drain_in_queue_order_witness:
  "Process db_queued =
     Inr (db_queued
           \<lparr>ev_refs := 2, refs := 2, js_handle := Strong, pending := 2,
            eio := [(Req_Shared (baton_cb 1), False), (Req_Shared (baton_cb 2), False)],
            queue := [close_call 3, shared_call 4]\<rparr>) \<and>
   (\<exists>k. [close_call 3, shared_call 4] = drop k (queue db_queued) \<and>
        [(Req_Shared (baton_cb 1), False), (Req_Shared (baton_cb 2), False)] =
          eio db_queued @ map (\<lambda>c. (request_of c, False)) (take k (queue db_queued))) \<and>
   opened db_waiting \<and> \<not> locked db_waiting \<and> queue db_waiting \<noteq> [] \<and>
   exclusive (hd (queue db_waiting)) \<and> pending db_waiting > 0 \<and>
   Process db_waiting = Inr db_waiting \<and>
   Schedule Fn_BeginClose (baton_cb 5) True db_waiting =
     Inr (db_waiting\<lparr>queue := [close_call 2, close_call 5]\<rparr>) \<and>
   Schedule Fn_BeginShared (baton_cb 3) False db_waiting =
     invoke Fn_BeginShared (baton_cb 3) db_waiting"
proof -
  have p: "Process db_queued =
     Inr (db_queued
           \<lparr>ev_refs := 2, refs := 2, js_handle := Strong, pending := 2,
            eio := [(Req_Shared (baton_cb 1), False), (Req_Shared (baton_cb 2), False)],
            queue := [close_call 3, shared_call 4]\<rparr>)"
    by code_simp
  have w: "opened db_waiting \<and> \<not> locked db_waiting \<and> queue db_waiting \<noteq> [] \<and>
      exclusive (hd (queue db_waiting)) \<and> pending db_waiting > 0"
    by code_simp
  have s: "Schedule Fn_BeginClose (baton_cb 5) True db_waiting =
     Inr (db_waiting\<lparr>queue := [close_call 2, close_call 5]\<rparr>)"
    by code_simp
  from drain_in_queue_order [of db_queued "db_queued
           \<lparr>ev_refs := 2, refs := 2, js_handle := Strong, pending := 2,
            eio := [(Req_Shared (baton_cb 1), False), (Req_Shared (baton_cb 2), False)],
            queue := [close_call 3, shared_call 4]\<rparr>"] p
  have "\<exists>k. [close_call 3, shared_call 4] = drop k (queue db_queued) \<and>
        [(Req_Shared (baton_cb 1), False), (Req_Shared (baton_cb 2), False)] =
          eio db_queued @ map (\<lambda>c. (request_of c, False)) (take k (queue db_queued))"
    by simp
  moreover from drain_in_queue_order [of db_waiting] w
  have "Process db_waiting = Inr db_waiting"
    by blast
  moreover from drain_in_queue_order [of db_waiting _ Fn_BeginShared "baton_cb 3"] w
  have "Schedule Fn_BeginShared (baton_cb 3) False db_waiting =
     invoke Fn_BeginShared (baton_cb 3) db_waiting"
    by blast
  ultimately show ?thesis using p w s by blast
qed

subsection \<open>After a failed open\<close>

lemma inert_step:
  assumes "\<not> opened db" "\<not> locked db" "eio db = []" "handle db = None"
    and "step e db = Inr db'"
  shows "\<not> opened db' \<and> \<not> locked db' \<and> eio db' = [] \<and> handle db' = None \<and>
     js_calls db' = js_calls db \<and> engine db' = engine db \<and>
     (\<exists>new. queue db' = queue db @ new)"
proof (cases e)
  case (Js_close cb)
  with assms show ?thesis
    by (auto simp: Close_def Ref_def ev_ref_def Schedule_def Let_def split: if_splits)
next
  case (Js_shared b)
  with assms show ?thesis
    by (auto simp: Schedule_def split: if_splits)
next
  case (Worker i r)
  with assms show ?thesis by (simp add: worker_def)
next
  case (Complete i)
  with assms show ?thesis by (simp add: complete_def)
next
  case Gc
  with assms show ?thesis
    by (auto simp: Destruct_def delete_db_def split: if_splits)
qed

lemma inert_run:
  assumes "\<not> opened db" "\<not> locked db" "eio db = []" "handle db = None"
    and "run es db = Inr db'"
  shows "\<not> opened db' \<and> \<not> locked db' \<and> eio db' = [] \<and> handle db' = None \<and>
     js_calls db' = js_calls db \<and> engine db' = engine db \<and>
     (\<exists>new. queue db' = queue db @ new)"
  using assms
proof (induction es arbitrary: db)
  case Nil
  then show ?case by simp
next
  case (Cons e es)
  from Cons.prems(5) obtain db1 where s: "step e db = Inr db1" and r: "run es db1 = Inr db'"
    by (cases "step e db") auto
  from inert_step [OF Cons.prems(1-4) s]
  have 1: "\<not> opened db1" "\<not> locked db1" "eio db1 = []" "handle db1 = None"
    "js_calls db1 = js_calls db" "engine db1 = engine db"
    and "\<exists>new. queue db1 = queue db @ new"
    by blast+
  then obtain n1 where n1: "queue db1 = queue db @ n1" by blast
  from Cons.IH [OF 1(1-4) r] obtain n2 where
    2: "\<not> opened db'" "\<not> locked db'" "eio db' = []" "handle db' = None"
    "js_calls db' = js_calls db1" "engine db' = engine db1" "queue db' = queue db1 @ n2"
    by blast
  with 1 n1 have "queue db' = queue db @ (n1 @ n2)" by simp
  with 1 2 show ?case by auto
qed


lemma failed_open_run:
  assumes "require args = Inr fname" "eio e = []" "rc r \<noteq> SQLITE_OK"
    and db0: "New require e args True = Inr db0"
  shows "\<exists>db1. run [Worker 0 r, Complete 0] db0 = Inr db1 \<and>
     \<not> opened db1 \<and> \<not> locked db1 \<and> eio db1 = [] \<and> handle db1 = None \<and>
     js_calls db1 = js_calls e @
       [case (if IsInt32 (arg args 1) then Cast_Function (arg args 2)
              else Cast_Function (arg args 1)) of
          Some f \<Rightarrow> TRY_CATCH_CALL f [Exception (errmsg r) (rc r)]
        | None \<Rightarrow> EMIT_EVENT [Str ''error'', Exception (errmsg r) (rc r)]]"
proof -
  define cb where "cb = (if IsInt32 (arg args 1) then Cast_Function (arg args 2)
              else Cast_Function (arg args 1))"
  define m where "m = (if IsInt32 (arg args 1) then Int32Value (arg args 1)
                       else SQLITE_OPEN_READWRITE OR SQLITE_OPEN_CREATE)"
  define b where "b = \<lparr>callback = cb, status = 0, message = [], filename = c_string fname,
                    mode = SQLITE_OPEN_FULLMUTEX OR m\<rparr>"
  from db0 have d: "db0 = (new_Database e)
            \<lparr>ev_refs := ev_refs e + 1, eio := eio e @ [(Req_Open b, False)],
             refs := 1, js_handle := Strong,
             props := [(''filename'', Str fname), (''mode'', Int32 m)]\<rparr>"
    by (simp add: New_construct [of require args fname e, OF assms(1)] b_def cb_def m_def)
  define dbw where "dbw = db0\<lparr>engine := engine e @ [Sqlite3_open_v2 (c_string fname) (mode b) (rc r) (ppDb r)],
      handle := None,
      eio := [(Req_Open (b\<lparr>status := rc r, message := errmsg r\<rparr>), True)]\<rparr>"
  have w: "worker 0 r db0 = Inr dbw"
    using assms(2,3)
    by (simp add: d dbw_def worker_def EIO_Open_def Let_def new_Database_def b_def)
  define db1 where "db1 = dbw\<lparr>eio := [], refs := 0, js_handle := Weak, ev_refs := ev_refs e,
      js_calls := js_calls e @
       [case cb of
          Some f \<Rightarrow> TRY_CATCH_CALL f [Exception (errmsg r) (rc r)]
        | None \<Rightarrow> EMIT_EVENT [Str ''error'', Exception (errmsg r) (rc r)]]\<rparr>"
  have c: "complete 0 dbw = Inr db1"
    using assms(3)
    by (simp add: complete_def dbw_def d db1_def remove_nth_def EIO_AfterOpen_def Unref_def
        Let_def MakeWeak_def ev_unref_def try_catch_call_def emit_event_def js_def
        new_Database_def b_def split: option.splits)
  from w c have "run [Worker 0 r, Complete 0] db0 = Inr db1"
    by simp
  moreover have "\<not> opened db1 \<and> \<not> locked db1 \<and> eio db1 = [] \<and> handle db1 = None"
    by (simp add: db1_def dbw_def d new_Database_def)
  moreover have "js_calls db1 = js_calls e @
       [case cb of
          Some f \<Rightarrow> TRY_CATCH_CALL f [Exception (errmsg r) (rc r)]
        | None \<Rightarrow> EMIT_EVENT [Str ''error'', Exception (errmsg r) (rc r)]]"
    by (simp add: db1_def)
  ultimately show ?thesis
    unfolding cb_def by blast
qed

text \<open>
  The state that a failed open leaves is permanent. The callback given to the
  constructor receives the engine's error, or, when there is none, an "error" event
  carries it. From then on, whatever happens next, the connection is neither open nor
  locked, nothing is handed to the worker pool, no call into JavaScript is made, no
  record leaves the queue, and \<^verbatim>\<open>Schedule\<close> appends every submitted request to the
  queue.
\<close>

lemma failed_open_stays_inert:
  assumes "New require e args True = Inr db0" "eio e = []" "rc r \<noteq> SQLITE_OK"
  shows "\<exists>db1. run [Worker 0 r, Complete 0] db0 = Inr db1 \<and>
     js_calls db1 = js_calls e @
       [case (if IsInt32 (arg args 1) then Cast_Function (arg args 2)
              else Cast_Function (arg args 1)) of
          Some f \<Rightarrow> TRY_CATCH_CALL f [Exception (errmsg r) (rc r)]
        | None \<Rightarrow> EMIT_EVENT [Str ''error'', Exception (errmsg r) (rc r)]] \<and>
     (\<forall>es db2. run es db1 = Inr db2 \<longrightarrow>
        \<not> opened db2 \<and> \<not> locked db2 \<and> eio db2 = [] \<and> js_calls db2 = js_calls db1 \<and>
        (\<exists>new. queue db2 = queue db1 @ new) \<and>
        (\<forall>cb baton excl.
           Schedule cb baton excl db2 =
             Inr (db2\<lparr>queue := queue db2 @
                    [\<lparr>call_callback = cb, call_baton = baton, exclusive = excl\<rparr>]\<rparr>)))"
proof -
  from New_Inr_require [OF assms(1)] obtain fname where f: "require args = Inr fname" ..
  from failed_open_run [OF f assms(2,3,1)] obtain db1 where
    r: "run [Worker 0 r, Complete 0] db0 = Inr db1" and
    i: "\<not> opened db1" "\<not> locked db1" "eio db1 = []" "handle db1 = None" and
    j: "js_calls db1 = js_calls e @
       [case (if IsInt32 (arg args 1) then Cast_Function (arg args 2)
              else Cast_Function (arg args 1)) of
          Some f \<Rightarrow> TRY_CATCH_CALL f [Exception (errmsg r) (rc r)]
        | None \<Rightarrow> EMIT_EVENT [Str ''error'', Exception (errmsg r) (rc r)]]"
    by blast
  have "\<not> opened db2 \<and> \<not> locked db2 \<and> eio db2 = [] \<and> js_calls db2 = js_calls db1 \<and>
        (\<exists>new. queue db2 = queue db1 @ new) \<and>
        (\<forall>cb baton excl.
           Schedule cb baton excl db2 =
             Inr (db2\<lparr>queue := queue db2 @
                    [\<lparr>call_callback = cb, call_baton = baton, exclusive = excl\<rparr>]\<rparr>))"
    if "run es db1 = Inr db2" for es db2
  proof -
    from inert_run [OF i that]
    have "\<not> opened db2" "\<not> locked db2" "eio db2 = []" "js_calls db2 = js_calls db1"
      "\<exists>new. queue db2 = queue db1 @ new"
      by blast+
    then show ?thesis by (simp add: Schedule_def)
  qed
  with r j show ?thesis by blast
qed

subsection \<open>Closing the native handle\<close>

lemma close_calls_append [simp]: "close_calls (xs @ ys) = close_calls xs @ close_calls ys"
  by (induction xs rule: close_calls.induct) simp_all

lemma open_calls_append [simp]: "open_calls (xs @ ys) = open_calls xs @ open_calls ys"
  by (induction xs rule: open_calls.induct) simp_all

lemma cnt_Nil [simp]: "cnt P [] = 0"
  by (simp add: cnt_def)

lemma cnt_Cons [simp]: "cnt P (x # xs) = (if P x then 1 else 0) + cnt P xs"
  by (simp add: cnt_def)

lemma cnt_append [simp]: "cnt P (xs @ ys) = cnt P xs + cnt P ys"
  by (simp add: cnt_def)

lemma cnt_remove_nth:
  assumes "i < length xs"
  shows "cnt P (remove_nth i xs) + (if P (xs ! i) then 1 else 0) = cnt P xs"
proof -
  have "cnt P xs = cnt P (take i xs @ xs ! i # drop (Suc i) xs)"
    using id_take_nth_drop [OF assms] by (rule arg_cong)
  then show ?thesis
    by (simp add: remove_nth_def)
qed

lemma cnt_update:
  "i < length xs \<Longrightarrow>
     cnt P (xs[i := y]) + (if P (xs ! i) then 1 else 0) = cnt P xs + (if P y then 1 else 0)"
proof (induction xs arbitrary: i)
  case Nil
  then show ?case by simp
next
  case (Cons x xs)
  then show ?case
    by (cases i) simp_all
qed

lemma cnt_tl:
  "xs \<noteq> [] \<Longrightarrow> cnt P (tl xs) + (if P (hd xs) then 1 else 0) = cnt P xs"
  by (cases xs) simp_all

lemma cnt_pos_nth: "i < length xs \<Longrightarrow> P (xs ! i) \<Longrightarrow> cnt P xs > 0"
  by (auto simp: cnt_def filter_empty_conv)

lemma EIO_BeginClose_Inr:
  "EIO_BeginClose b db = Inr db1 \<Longrightarrow>
     opened db \<and> \<not> locked db \<and> pending db = 0 \<and>
     db1 = db\<lparr>locked := True, eio := eio db @ [(Req_Close b, False)]\<rparr>"
  by (auto simp: EIO_BeginClose_def eio_custom_def split: if_splits)

lemma EIO_BeginShared_Inr:
  "EIO_BeginShared b db = Inr db1 \<Longrightarrow>
     js_handle db \<noteq> Empty \<and>
     db1 = db\<lparr>refs := refs db + 1, js_handle := Strong, ev_refs := ev_refs db + 1,
              pending := pending db + 1, eio := eio db @ [(Req_Shared b, False)]\<rparr>"
  by (cases "Ref db")
     (auto simp: EIO_BeginShared_def eio_custom_def ev_ref_def dest!: Ref_Inr)

lemma invoke_live:
  assumes "live n db" "invoke c b db = Inr db1"
  shows "live n (db1\<lparr>queue := q\<rparr>)"
proof (cases c)
  case Fn_BeginClose
  with assms(2) have "opened db \<and> \<not> locked db \<and> pending db = 0 \<and>
     db1 = db\<lparr>locked := True, eio := eio db @ [(Req_Close b, False)]\<rparr>"
    by (auto dest: EIO_BeginClose_Inr)
  with assms(1) show ?thesis
    by (auto simp: live_def closes_def opens_def)
next
  case Fn_BeginShared
  with assms(2) have "db1 = db\<lparr>refs := refs db + 1, js_handle := Strong, ev_refs := ev_refs db + 1,
              pending := pending db + 1, eio := eio db @ [(Req_Shared b, False)]\<rparr>"
    by (auto dest: EIO_BeginShared_Inr)
  with assms(1) show ?thesis
    by (auto simp: live_def closes_def opens_def)
qed

lemma invoke_refs_ok:
  assumes "js_handle db \<noteq> Empty" "js_handle db = Weak \<longleftrightarrow> refs db = 0"
    and "int (cnt (\<lambda>x. fst x \<noteq> Req_Destruct) (eio db)) +
         int (cnt (\<lambda>c. call_callback c = Fn_BeginClose) q) +
         (if c = Fn_BeginClose then 1 else 0) \<le> refs db"
    and "invoke c b db = Inr db1"
  shows "refs_ok 0 (db1\<lparr>queue := q\<rparr>)"
proof (cases c)
  case Fn_BeginClose
  with assms(4) have "db1 = db\<lparr>locked := True, eio := eio db @ [(Req_Close b, False)]\<rparr>"
    by (auto dest: EIO_BeginClose_Inr)
  with assms(1-3) Fn_BeginClose show ?thesis
    by (auto simp: refs_ok_def held_def)
next
  case Fn_BeginShared
  with assms(4) have "db1 = db\<lparr>refs := refs db + 1, js_handle := Strong, ev_refs := ev_refs db + 1,
              pending := pending db + 1, eio := eio db @ [(Req_Shared b, False)]\<rparr>"
    by (auto dest: EIO_BeginShared_Inr)
  with assms(1-3) Fn_BeginShared show ?thesis
    by (auto simp: refs_ok_def held_def)
qed

lemma Process_loop_inv:
  "refs_ok 0 db \<Longrightarrow> live n db \<Longrightarrow> Process_loop db = Inr db' \<Longrightarrow> refs_ok 0 db' \<and> live n db'"
proof (induction db rule: Process_loop.induct)
  case (1 db)
  show ?case
  proof (cases "opened db \<and> \<not> locked db \<and> queue db \<noteq> []")
    case False
    with "1.prems" show ?thesis
      by (auto simp: Process_loop.simps [of db])
  next
    case run: True
    define call where "call = hd (queue db)"
    show ?thesis
    proof (cases "exclusive call \<and> pending db > 0")
      case True
      with run "1.prems" show ?thesis
        by (auto simp: Process_loop.simps [of db] call_def Let_def)
    next
      case False
      show ?thesis
      proof (cases "invoke (call_callback call) (call_baton call) db")
        case (Inl a)
        with run False "1.prems" show ?thesis
          by (auto simp: Process_loop.simps [of db] call_def Let_def)
      next
        case (Inr db1)
        from queue_invoke [OF Inr] have q: "queue db1 = queue db" .
        from run False Inr "1.prems"(3)
        have p: "Process_loop (db1\<lparr>queue := tl (queue db1)\<rparr>) = Inr db'"
          by (auto simp: Process_loop.simps [of db] call_def Let_def)
        from run have "int (cnt (\<lambda>c. call_callback c = Fn_BeginClose) (tl (queue db))) +
            (if call_callback call = Fn_BeginClose then 1 else 0) =
            int (cnt (\<lambda>c. call_callback c = Fn_BeginClose) (queue db))"
          using cnt_tl [of "queue db" "\<lambda>c. call_callback c = Fn_BeginClose"]
          by (auto simp: call_def split: if_splits)
        with "1.prems"(1)
        have "refs_ok 0 (db1\<lparr>queue := tl (queue db)\<rparr>)"
          by (intro invoke_refs_ok [OF _ _ _ Inr]) (auto simp: refs_ok_def held_def)
        moreover from "1.prems"(2) Inr have "live n (db1\<lparr>queue := tl (queue db)\<rparr>)"
          by (rule invoke_live)
        ultimately show ?thesis
          using "1.IH" [OF run call_def False Inr _ _ p] q by simp
      qed
    qed
  qed
qed

lemma live_js:
  "live n (db\<lparr>js_calls := j\<rparr>) = live n db"
  by (simp add: live_def closes_def opens_def)

lemma refs_ok_js:
  "refs_ok k (db\<lparr>js_calls := j\<rparr>) = refs_ok k db"
  by (simp add: refs_ok_def held_def)

lemma Process_inv:
  assumes "refs_ok 0 db" "live n db" "Process db = Inr db'"
  shows "refs_ok 0 db' \<and> live n db'"
proof (cases "\<not> opened db \<and> locked db \<and> queue db \<noteq> []")
  case True
  with assms show ?thesis
    by (auto simp: Process_def emit_event_def js_def live_js refs_ok_js)
next
  case False
  with assms(3) have "Process_loop db = Inr db'"
    by (auto simp: Process_def)
  with assms(1,2) show ?thesis by (rule Process_loop_inv)
qed

lemma Schedule_inv:
  assumes "refs_ok (if c = Fn_BeginClose then 1 else 0) db" "live n db"
    and "Schedule c b x db = Inr db'"
  shows "refs_ok 0 db' \<and> live n db'"
proof (cases "\<not> opened db \<and> locked db")
  case True
  with assms(3) obtain j where d: "db' = db\<lparr>js_calls := j\<rparr>"
    by (auto simp: Schedule_def try_catch_call_def emit_event_def js_def split: option.splits)
  from assms(1) have "refs_ok 0 db"
    by (auto simp: refs_ok_def split: if_splits)
  with assms(2) show ?thesis
    by (simp add: d live_js refs_ok_js)
next
  case nc: False
  show ?thesis
  proof (cases "\<not> opened db \<or> locked db \<or> (x \<and> pending db > 0)")
    case True
    with nc assms(3)
    have d: "db' = db\<lparr>queue := queue db @ [\<lparr>call_callback = c, call_baton = b, exclusive = x\<rparr>]\<rparr>"
      by (auto simp: Schedule_def)
    from assms(1) have "refs_ok 0 db'"
      by (auto simp: d refs_ok_def held_def split: if_splits)
    moreover from assms(2) have "live n db'"
      by (simp add: d live_def closes_def opens_def)
    ultimately show ?thesis ..
  next
    case False
    with nc assms(3) have i: "invoke c b db = Inr db'"
      by (auto simp: Schedule_def)
    from assms(1) have "refs_ok 0 (db'\<lparr>queue := queue db\<rparr>)"
      by (intro invoke_refs_ok [OF _ _ _ i]) (auto simp: refs_ok_def held_def split: if_splits)
    moreover from assms(2) i have "live n (db'\<lparr>queue := queue db\<rparr>)"
      by (rule invoke_live)
    moreover from queue_invoke [OF i] have "db'\<lparr>queue := queue db\<rparr> = db'"
      by simp
    ultimately show ?thesis by simp
  qed
qed

lemma Close_inv:
  assumes "refs_ok 0 db" "live n db" "Close cb db = Inr db'"
  shows "refs_ok 0 db' \<and> live n db'"
proof -
  from assms(3) obtain db1 where r: "Ref db = Inr db1"
    by (cases "Ref db") (auto simp: Close_def)
  from Ref_Inr [OF r] have d: "db1 = db\<lparr>refs := refs db + 1, js_handle := Strong\<rparr>"
    by simp
  from assms(1) have "refs_ok 1 (ev_ref db1)"
    by (auto simp: d ev_ref_def refs_ok_def held_def)
  moreover from assms(2) have "live n (ev_ref db1)"
    by (simp add: d ev_ref_def live_def closes_def opens_def)
  moreover from assms(3) r
  have "Schedule Fn_BeginClose \<lparr>callback = cb, status = 0, message = []\<rparr> True (ev_ref db1) = Inr db'"
    by (simp add: Close_def Let_def)
  ultimately show ?thesis
    using Schedule_inv [of Fn_BeginClose "ev_ref db1" n] by simp
qed


lemma Unref_refs_ok:
  assumes "refs_ok 1 db" "Unref db = Inr db1"
  shows "refs_ok 0 db1"
  using assms(1) Unref_Inr [OF assms(2)]
  by (auto simp: refs_ok_def held_def split: if_splits)

lemma Unref_live:
  assumes "live n db" "Unref db = Inr db1"
  shows "live n db1"
  using assms(1) Unref_Inr [OF assms(2)]
  by (auto simp: live_def closes_def opens_def split: if_splits)

lemma Unref_fields:
  assumes "Unref db = Inr db1"
  shows "opened db1 = opened db \<and> eio db1 = eio db \<and> locked db1 = locked db"
  using Unref_Inr [OF assms] by (auto split: if_splits)

lemma refs_ok_cong:
  "js_handle a = js_handle b \<Longrightarrow> refs a = refs b \<Longrightarrow> eio a = eio b \<Longrightarrow> queue a = queue b \<Longrightarrow>
     refs_ok k a = refs_ok k b"
  by (simp add: refs_ok_def held_def)

lemma live_cong:
  "finalized a = finalized b \<Longrightarrow> deleted a = deleted b \<Longrightarrow> engine a = engine b \<Longrightarrow>
   eio a = eio b \<Longrightarrow> opened a = opened b \<Longrightarrow> locked a = locked b \<Longrightarrow> handle a = handle b \<Longrightarrow>
     live n a = live n b"
  by (simp add: live_def closes_def opens_def)

lemma live_opened:
  "live n db \<Longrightarrow> (ok \<longrightarrow> cnt (\<lambda>x. is_open_req (fst x)) (eio db) = 0) \<Longrightarrow>
     live n (db\<lparr>opened := ok\<rparr>)"
  by (auto simp: live_def closes_def opens_def)

lemma EIO_AfterOpen_inv:
  assumes "refs_ok 1 db" "live n db" "cnt (\<lambda>x. is_open_req (fst x)) (eio db) = 0"
    and "\<not> opened db" and "EIO_AfterOpen b db = Inr db'"
  shows "refs_ok 0 db' \<and> live n db'"
proof -
  from assms(5) obtain db1 where u: "Unref db = Inr db1"
    by (cases "Unref db") (auto simp: EIO_AfterOpen_def)
  note r1 = Unref_refs_ok [OF assms(1) u] and l1 = Unref_live [OF assms(2) u]
    and f1 = Unref_fields [OF u]
  define ok where "ok = (status b = SQLITE_OK)"
  define X where "X = (case callback b of
      Some f \<Rightarrow> try_catch_call f [if ok then Null else Exception (message b) (status b)]
                 ((ev_unref db1)\<lparr>opened := ok\<rparr>)
    | None \<Rightarrow> if \<not> ok then emit_event 2 [Str ''error'', Exception (message b) (status b)]
                 ((ev_unref db1)\<lparr>opened := ok\<rparr>) else (ev_unref db1)\<lparr>opened := ok\<rparr>)"
  have okx: "opened X = ok"
    by (simp add: X_def try_catch_call_def emit_event_def js_def ev_unref_def split: option.splits)
  from assms(3) f1 have "live n (db1\<lparr>opened := ok\<rparr>)"
    by (intro live_opened l1) simp
  moreover have "live n X = live n (db1\<lparr>opened := ok\<rparr>)"
    by (rule live_cong)
       (simp_all add: X_def try_catch_call_def emit_event_def js_def ev_unref_def
          split: option.splits)
  ultimately have lx: "live n X" by simp
  have "refs_ok 0 X = refs_ok 0 db1"
    by (rule refs_ok_cong)
       (simp_all add: X_def try_catch_call_def emit_event_def js_def ev_unref_def
          split: option.splits)
  with r1 have rx: "refs_ok 0 X" by simp
  from assms(4,5) u f1 have "db' = X \<or> Process (emit_event 1 [Str ''open''] X) = Inr db'"
    by (auto simp: EIO_AfterOpen_def Let_def X_def ok_def ev_unref_def try_catch_call_def
        emit_event_def js_def split: option.splits if_splits)
  moreover from lx have "live n (emit_event 1 [Str ''open''] X)"
    by (simp add: emit_event_def js_def live_js)
  moreover from rx have "refs_ok 0 (emit_event 1 [Str ''open''] X)"
    by (simp add: emit_event_def js_def refs_ok_js)
  ultimately show ?thesis
    using rx lx Process_inv [of "emit_event 1 [Str ''open''] X" n db'] by blast
qed


lemma EIO_AfterClose_inv:
  assumes "refs_ok 1 db" "live n db" "EIO_AfterClose b db = Inr db'"
  shows "refs_ok 0 db' \<and> live n db'"
proof -
  from assms(3) obtain db1 where u: "Unref (ev_unref db) = Inr db1"
    by (cases "Unref (ev_unref db)") (auto simp: EIO_AfterClose_def)
  have "refs_ok 1 (ev_unref db) = refs_ok 1 db"
    by (rule refs_ok_cong) (simp_all add: ev_unref_def)
  with assms(1) have r0: "refs_ok 1 (ev_unref db)" by simp
  have "live n (ev_unref db) = live n db"
    by (rule live_cong) (simp_all add: ev_unref_def)
  with assms(2) have l0: "live n (ev_unref db)" by simp
  note r1 = Unref_refs_ok [OF r0 u] and l1 = Unref_live [OF l0 u]
  let ?argv0 = "if status b \<noteq> SQLITE_OK then Exception (message b) (status b) else Null"
  let ?db2 = "if status b \<noteq> SQLITE_OK then db1 else db1\<lparr>opened := False\<rparr>"
  let ?X = "case callback b of
              Some f \<Rightarrow> try_catch_call f [?argv0] ?db2
            | None \<Rightarrow> if opened ?db2 then emit_event 2 [Str ''error'', ?argv0] ?db2 else ?db2"
  from l1 have l2: "live n ?db2"
    by (auto intro: live_opened)
  have "live n ?X = live n ?db2"
    by (rule live_cong)
       (simp_all add: try_catch_call_def emit_event_def js_def split: option.splits)
  with l2 have lx: "live n ?X" by simp
  have "refs_ok 0 ?X = refs_ok 0 db1"
    by (rule refs_ok_cong)
       (simp_all add: try_catch_call_def emit_event_def js_def split: option.splits)
  with r1 have rx: "refs_ok 0 ?X" by simp
  from assms(3) u
  have "db' = ?X \<or> Process (emit_event 1 [Str ''close'', ?argv0] ?X) = Inr db'"
    by (simp add: EIO_AfterClose_def Let_def split: if_splits)
  moreover from lx have "live n (emit_event 1 [Str ''close'', ?argv0] ?X)"
    by (simp add: emit_event_def js_def live_js)
  moreover from rx have "refs_ok 0 (emit_event 1 [Str ''close'', ?argv0] ?X)"
    by (simp add: emit_event_def js_def refs_ok_js)
  ultimately show ?thesis
    using rx lx Process_inv [of "emit_event 1 [Str ''close'', ?argv0] ?X" n db'] by blast
qed

lemma EIO_AfterShared_inv:
  assumes "refs_ok 1 db" "live n db" "EIO_AfterShared b db = Inr db'"
  shows "refs_ok 0 db' \<and> live n db'"
proof -
  from assms(3) obtain db1 where u: "Unref db = Inr db1"
    by (cases "Unref db") (auto simp: EIO_AfterShared_def)
  note r1 = Unref_refs_ok [OF assms(1) u] and l1 = Unref_live [OF assms(2) u]
  let ?argv0 = "if status b \<noteq> SQLITE_OK then Exception (message b) (status b) else Null"
  let ?db2 = "(ev_unref db1)\<lparr>pending := pending db1 - 1\<rparr>"
  let ?X = "case callback b of Some f \<Rightarrow> try_catch_call f [?argv0] ?db2 | None \<Rightarrow> ?db2"
  have "live n ?X = live n db1"
    by (rule live_cong)
       (simp_all add: try_catch_call_def js_def ev_unref_def split: option.splits)
  with l1 have lx: "live n ?X" by simp
  have "refs_ok 0 ?X = refs_ok 0 db1"
    by (rule refs_ok_cong)
       (simp_all add: try_catch_call_def js_def ev_unref_def split: option.splits)
  with r1 have rx: "refs_ok 0 ?X" by simp
  from assms(3) u have "Process ?X = Inr db'"
    by (auto simp: EIO_AfterShared_def Let_def split: if_splits option.splits)
  with rx lx show ?thesis by (rule Process_inv)
qed


lemma cnt_mono: "(\<And>x. P x \<Longrightarrow> Q x) \<Longrightarrow> cnt P xs \<le> cnt Q xs"
  by (induction xs) auto

lemma worker_Inr:
  assumes "worker i r db = Inr db'"
  shows "i < length (eio db) \<and> \<not> snd (eio db ! i) \<and>
    (case fst (eio db ! i) of
       Req_Open b \<Rightarrow> db' = (snd (EIO_Open r b db))
           \<lparr>eio := (eio db)[i := (Req_Open (fst (EIO_Open r b db)), True)]\<rparr>
     | Req_Close b \<Rightarrow> db' = (snd (EIO_Close r b db))
           \<lparr>eio := (eio db)[i := (Req_Close (fst (EIO_Close r b db)), True)]\<rparr>
     | Req_Destruct \<Rightarrow> db' = (EIO_Destruct r db)\<lparr>eio := (eio db)[i := (Req_Destruct, True)]\<rparr>
     | Req_Shared b \<Rightarrow> db' = db\<lparr>eio := (eio db)[i := (Req_Shared (fst (EIO_Shared r b db)), True)]\<rparr>)"
  using assms
  by (auto simp: worker_def Let_def EIO_Open_def EIO_Close_def EIO_Destruct_def EIO_Shared_def
      split: if_splits eio_req.splits)

lemma worker_live:
  assumes "refs_ok 0 db" "live n db" "worker i r db = Inr db'"
  shows "refs_ok 0 db' \<and> live n db'"
proof -
  from worker_Inr [OF assms(3)] have i: "i < length (eio db)" and nr: "\<not> snd (eio db ! i)"
    by simp_all
  obtain q where q: "eio db ! i = (q, False)"
    using nr by (cases "eio db ! i") auto
  note u = cnt_update [OF i, of "\<lambda>x. fst x \<noteq> Req_Destruct"]
    cnt_update [OF i, of "\<lambda>x. fst x = Req_Destruct"]
    cnt_update [OF i, of "\<lambda>x. is_open_req (fst x)"]
    cnt_update [OF i, of "\<lambda>x. is_open_req (fst x) \<and> \<not> snd x"]
    cnt_update [OF i, of "\<lambda>x. is_close_req (fst x) \<and> \<not> snd x"]
  have m: "cnt (\<lambda>x. is_open_req (fst x) \<and> \<not> snd x) (eio db) \<le> cnt (\<lambda>x. is_open_req (fst x)) (eio db)"
    by (rule cnt_mono) simp
  show ?thesis
  proof (cases q)
    case (Req_Open b)
    with i q have "cnt (\<lambda>x. is_open_req (fst x) \<and> \<not> snd x) (eio db) > 0"
       "cnt (\<lambda>x. is_open_req (fst x)) (eio db) > 0"
      by (auto intro: cnt_pos_nth)
    with assms(2) m have c: "\<not> locked db" "\<not> opened db" "opens n db = []" "closes n db = []"
      "cnt (\<lambda>x. is_open_req (fst x) \<and> \<not> snd x) (eio db) = 1"
      by (auto simp: live_def split: if_splits)
    from worker_Inr [OF assms(3)] q Req_Open
    have d: "db' = (snd (EIO_Open r b db))
           \<lparr>eio := (eio db)[i := (Req_Open (fst (EIO_Open r b db)), True)]\<rparr>"
      by simp
    have "refs_ok 0 db'"
      using assms(1) u(1) [of "(Req_Open (fst (EIO_Open r b db)), True)"] q Req_Open
      unfolding d by (auto simp: refs_ok_def held_def EIO_Open_def Let_def)
    moreover have "live n db'"
      using assms(2) c u [of "(Req_Open (fst (EIO_Open r b db)), True)"] q Req_Open
      unfolding d by (auto simp: live_def EIO_Open_def Let_def closes_def opens_def)
    ultimately show ?thesis ..
  next
    case (Req_Close b)
    with i q have pos: "cnt (\<lambda>x. is_close_req (fst x) \<and> \<not> snd x) (eio db) > 0"
      by (auto intro: cnt_pos_nth)
    from assms(2)
    have bud: "(if locked db then 0 else 1) +
        cnt (\<lambda>x. is_close_req (fst x) \<and> \<not> snd x) (eio db) + length (closes n db) \<le> 1"
      by (simp add: live_def)
    from pos bud have l: "locked db"
      by (cases "locked db") simp_all
    with bud have "cnt (\<lambda>x. is_close_req (fst x) \<and> \<not> snd x) (eio db) +
        length (closes n db) \<le> 1"
      by simp
    with pos have "length (closes n db) = 0 \<and>
        cnt (\<lambda>x. is_close_req (fst x) \<and> \<not> snd x) (eio db) = 1"
      by linarith
    with l have c: "locked db" "closes n db = []"
      "cnt (\<lambda>x. is_close_req (fst x) \<and> \<not> snd x) (eio db) = 1"
      by simp_all
    from worker_Inr [OF assms(3)] q Req_Close
    have d: "db' = (snd (EIO_Close r b db))
           \<lparr>eio := (eio db)[i := (Req_Close (fst (EIO_Close r b db)), True)]\<rparr>"
      by simp
    have "refs_ok 0 db'"
      using assms(1) u(1) [of "(Req_Close (fst (EIO_Close r b db)), True)"] q Req_Close
      unfolding d by (auto simp: refs_ok_def held_def EIO_Close_def Let_def)
    moreover have "live n db'"
      using assms(2) c u [of "(Req_Close (fst (EIO_Close r b db)), True)"] q Req_Close
      unfolding d by (auto simp: live_def EIO_Close_def Let_def closes_def opens_def)
    ultimately show ?thesis ..
  next
    case Req_Destruct
    with i q have "cnt (\<lambda>x. fst x = Req_Destruct) (eio db) > 0"
      by (auto intro: cnt_pos_nth)
    with assms(2) show ?thesis by (simp add: live_def)
  next
    case (Req_Shared b)
    from worker_Inr [OF assms(3)] q Req_Shared
    have d: "db' = db\<lparr>eio := (eio db)[i := (Req_Shared (fst (EIO_Shared r b db)), True)]\<rparr>"
      by simp
    have "refs_ok 0 db'"
      using assms(1) u(1) [of "(Req_Shared (fst (EIO_Shared r b db)), True)"] q Req_Shared
      unfolding d by (auto simp: refs_ok_def held_def)
    moreover have "live n db'"
      using assms(2) u [of "(Req_Shared (fst (EIO_Shared r b db)), True)"] q Req_Shared
      unfolding d by (auto simp: live_def closes_def opens_def)
    ultimately show ?thesis ..
  qed
qed


lemma complete_Inr:
  assumes "complete i db = Inr db'"
  shows "i < length (eio db) \<and> snd (eio db ! i) \<and>
    (case fst (eio db ! i) of
       Req_Open b \<Rightarrow> EIO_AfterOpen b (db\<lparr>eio := remove_nth i (eio db)\<rparr>) = Inr db'
     | Req_Close b \<Rightarrow> EIO_AfterClose b (db\<lparr>eio := remove_nth i (eio db)\<rparr>) = Inr db'
     | Req_Destruct \<Rightarrow> db' = EIO_AfterDestruct (db\<lparr>eio := remove_nth i (eio db)\<rparr>)
     | Req_Shared b \<Rightarrow> EIO_AfterShared b (db\<lparr>eio := remove_nth i (eio db)\<rparr>) = Inr db')"
  using assms
  by (auto simp: complete_def Let_def split: if_splits eio_req.splits)

lemma remove_live:
  assumes "refs_ok 0 db" "live n db" "i < length (eio db)" "fst (eio db ! i) \<noteq> Req_Destruct"
  shows "refs_ok 1 (db\<lparr>eio := remove_nth i (eio db)\<rparr>) \<and>
         live n (db\<lparr>eio := remove_nth i (eio db)\<rparr>)"
proof -
  note u = cnt_remove_nth [OF assms(3), of "\<lambda>x. fst x \<noteq> Req_Destruct"]
    cnt_remove_nth [OF assms(3), of "\<lambda>x. fst x = Req_Destruct"]
    cnt_remove_nth [OF assms(3), of "\<lambda>x. is_open_req (fst x)"]
    cnt_remove_nth [OF assms(3), of "\<lambda>x. is_open_req (fst x) \<and> \<not> snd x"]
    cnt_remove_nth [OF assms(3), of "\<lambda>x. is_close_req (fst x) \<and> \<not> snd x"]
  have "refs_ok 1 (db\<lparr>eio := remove_nth i (eio db)\<rparr>)"
    using assms(1,4) u(1) by (auto simp: refs_ok_def held_def split: if_splits)
  moreover have "live n (db\<lparr>eio := remove_nth i (eio db)\<rparr>)"
    using assms(2,4) u by (auto simp: live_def closes_def opens_def split: if_splits)
  ultimately show ?thesis ..
qed

lemma complete_live:
  assumes "refs_ok 0 db" "live n db" "complete i db = Inr db'"
  shows "refs_ok 0 db' \<and> live n db'"
proof -
  from complete_Inr [OF assms(3)] have i: "i < length (eio db)"
    by simp
  let ?db1 = "db\<lparr>eio := remove_nth i (eio db)\<rparr>"
  show ?thesis
  proof (cases "fst (eio db ! i)")
    case (Req_Open b)
    with complete_Inr [OF assms(3)] have a: "EIO_AfterOpen b ?db1 = Inr db'"
      by simp
    from Req_Open i have pos: "cnt (\<lambda>x. is_open_req (fst x)) (eio db) > 0"
      by (auto intro: cnt_pos_nth)
    with assms(2) have o: "\<not> opened ?db1" and one: "cnt (\<lambda>x. is_open_req (fst x)) (eio db) \<le> 1"
      by (auto simp: live_def)
    from cnt_remove_nth [OF i, of "\<lambda>x. is_open_req (fst x)"] Req_Open one
    have z: "cnt (\<lambda>x. is_open_req (fst x)) (eio ?db1) = 0"
      by simp
    from remove_live [OF assms(1,2) i] Req_Open have "refs_ok 1 ?db1" "live n ?db1"
      by simp_all
    then show ?thesis
      using z o a by (rule EIO_AfterOpen_inv)
  next
    case (Req_Close b)
    with complete_Inr [OF assms(3)] have a: "EIO_AfterClose b ?db1 = Inr db'"
      by simp
    from remove_live [OF assms(1,2) i] Req_Close have "refs_ok 1 ?db1" "live n ?db1"
      by simp_all
    then show ?thesis
      using a by (rule EIO_AfterClose_inv)
  next
    case Req_Destruct
    with i have "cnt (\<lambda>x. fst x = Req_Destruct) (eio db) > 0"
      by (auto intro: cnt_pos_nth)
    with assms(2) show ?thesis by (simp add: live_def)
  next
    case (Req_Shared b)
    with complete_Inr [OF assms(3)] have a: "EIO_AfterShared b ?db1 = Inr db'"
      by simp
    from remove_live [OF assms(1,2) i] Req_Shared have "refs_ok 1 ?db1" "live n ?db1"
      by simp_all
    then show ?thesis
      using a by (rule EIO_AfterShared_inv)
  qed
qed

lemma closed_once_short: "length cs \<le> 1 \<Longrightarrow> closed_once cs"
  by (cases cs) (auto simp: closed_once_def)

lemma Gc_live:
  assumes "refs_ok 0 db" "live n db" "step Gc db = Inr db'"
  shows "fin n db'"
proof -
  from assms(3) have w: "js_handle db = Weak"
    and d: "db' = Destruct (db\<lparr>finalized := True\<rparr>)"
    by (auto split: if_splits)
  from assms(1) w have r: "refs db = 0" by (simp add: refs_ok_def)
  with assms(1) have "held db = 0" by (simp add: refs_ok_def)
  with assms(2) have e: "eio db = []"
    by (cases "eio db") (auto simp: live_def held_def split: if_splits)
  from assms(2) e have b: "length (closes n db) \<le> 1"
    by (auto simp: live_def split: if_splits)
  show ?thesis
  proof (cases "handle db")
    case None
    with assms(2) e r w closed_once_short [OF b] show ?thesis
      by (simp add: d Destruct_def delete_db_def fin_def live_def closes_def opens_def)
  next
    case (Some h)
    with assms(2) e r w b show ?thesis
      by (auto simp: d Destruct_def ev_ref_def eio_custom_def fin_def live_def closes_def
          opens_def)
  qed
qed

lemma worker_fin:
  assumes "fin n db" "worker i r db = Inr db'"
  shows "fin n db'"
proof -
  from worker_Inr [OF assms(2)] have i: "i < length (eio db)" and nr: "\<not> snd (eio db ! i)"
    by simp_all
  with assms(1) have e: "eio db = [(Req_Destruct, False)]" and i0: "i = 0"
    by (auto simp: fin_def)
  with worker_Inr [OF assms(2)]
  have d: "db' = (EIO_Destruct r db)\<lparr>eio := [(Req_Destruct, True)]\<rparr>"
    by simp
  from assms(1) e have "length (closes n db) \<le> 1" "\<forall>c \<in> set (closes n db). snd c \<noteq> SQLITE_OK"
    "\<not> deleted db"
    by (auto simp: fin_def)
  with assms(1) show ?thesis
    by (auto simp: d EIO_Destruct_def fin_def closes_def opens_def closed_once_def)
qed

lemma complete_fin:
  assumes "fin n db" "complete i db = Inr db'"
  shows "fin n db'"
proof -
  from complete_Inr [OF assms(2)] have i: "i < length (eio db)" and nr: "snd (eio db ! i)"
    by simp_all
  with assms(1) have e: "eio db = [(Req_Destruct, True)]" and i0: "i = 0"
    by (auto simp: fin_def)
  with complete_Inr [OF assms(2)]
  have d: "db' = EIO_AfterDestruct (db\<lparr>eio := []\<rparr>)"
    by (simp add: remove_nth_def)
  from assms(1) e show ?thesis
    by (auto simp: d EIO_AfterDestruct_def delete_db_def ev_unref_def fin_def closes_def
        opens_def)
qed

lemma inv_step:
  assumes "inv n db" "step e db = Inr db'"
  shows "inv n db'"
proof (cases "finalized db")
  case True
  with assms(1) have f: "fin n db"
    by (auto simp: inv_def live_def)
  show ?thesis
  proof (cases e)
    case (Js_close cb)
    with assms(2) True show ?thesis by simp
  next
    case (Js_shared b)
    with assms(2) True show ?thesis by simp
  next
    case (Worker i r)
    with assms(2) f show ?thesis by (auto simp: inv_def dest: worker_fin)
  next
    case (Complete i)
    with assms(2) f show ?thesis by (auto simp: inv_def dest: complete_fin)
  next
    case Gc
    with assms(2) True show ?thesis by simp
  qed
next
  case False
  with assms(1) have l: "refs_ok 0 db" "live n db"
    by (auto simp: inv_def fin_def)
  show ?thesis
  proof (cases e)
    case (Js_close cb)
    with assms(2) False have "Close cb db = Inr db'" by simp
    from Close_inv [OF l this] show ?thesis by (simp add: inv_def)
  next
    case (Js_shared b)
    with assms(2) False have "Schedule Fn_BeginShared b False db = Inr db'" by simp
    from Schedule_inv [of Fn_BeginShared db n b False db'] l this show ?thesis
      by (simp add: inv_def)
  next
    case (Worker i r)
    with assms(2) have "worker i r db = Inr db'" by simp
    from worker_live [OF l this] show ?thesis by (simp add: inv_def)
  next
    case (Complete i)
    with assms(2) have "complete i db = Inr db'" by simp
    from complete_live [OF l this] show ?thesis by (simp add: inv_def)
  next
    case Gc
    with assms(2) Gc_live [OF l] show ?thesis by (simp add: inv_def)
  qed
qed


lemma inv_New:
  assumes "New require e args True = Inr db0" "eio e = []"
  shows "inv (length (engine e)) db0"
proof -
  from New_Inr_require [OF assms(1)] obtain fname where f: "require args = Inr fname" ..
  let ?b = "\<lparr>callback = (if IsInt32 (arg args 1) then Cast_Function (arg args 2)
                                 else Cast_Function (arg args 1)),
                    status = 0, message = [], filename = c_string fname,
                    mode = SQLITE_OPEN_FULLMUTEX OR
                      (if IsInt32 (arg args 1) then Int32Value (arg args 1)
                       else SQLITE_OPEN_READWRITE OR SQLITE_OPEN_CREATE)\<rparr>"
  let ?X = "(new_Database e)
            \<lparr>ev_refs := ev_refs e + 1, eio := eio e @ [(Req_Open ?b, False)],
             refs := 1, js_handle := Strong,
             props := [(''filename'', Str fname),
                       (''mode'', Int32 (if IsInt32 (arg args 1) then Int32Value (arg args 1)
                                         else SQLITE_OPEN_READWRITE OR SQLITE_OPEN_CREATE))]\<rparr>"
  from assms(1) have "Inr db0 = New require e args True"
    by simp
  also have "\<dots> = Inr ?X"
    by (rule New_construct [of require args fname e, OF f])
  finally have d: "db0 = ?X"
    by simp
  have "refs_ok 0 db0"
    using assms(2) by (simp add: d refs_ok_def held_def new_Database_def)
  moreover have "live (length (engine e)) db0"
    using assms(2) by (simp add: d live_def closes_def opens_def new_Database_def)
  ultimately show ?thesis by (simp add: inv_def)
qed



subsection \<open>No assertion fails\<close>

text \<open>
  From construction on, a sequence of events stops only at an event that cannot happen
  in the state reached (a request that is not in flight, a call from JavaScript on a
  finalized object): the assertions of \<^verbatim>\<open>Ref\<close>, \<^verbatim>\<open>Unref\<close>, \<^verbatim>\<open>Wrap\<close> and
  \<^verbatim>\<open>EIO_BeginClose\<close> all hold whenever they are reached.
\<close>

lemma Ref_total: "js_handle db \<noteq> Empty \<Longrightarrow> \<exists>db1. Ref db = Inr db1"
  by (simp add: Ref_def)

lemma Unref_total: "refs_ok 1 db \<Longrightarrow> \<exists>db1. Unref db = Inr db1"
  by (cases "js_handle db") (auto simp: Unref_def Let_def refs_ok_def)

lemma invoke_total:
  assumes "opened db" "\<not> locked db" "c = Fn_BeginClose \<longrightarrow> pending db = 0"
    "js_handle db \<noteq> Empty"
  shows "\<exists>db1. invoke c b db = Inr db1"
  using assms by (cases c) (simp_all add: EIO_BeginClose_def EIO_BeginShared_def Ref_def)

lemma Process_loop_total:
  "refs_ok 0 db \<Longrightarrow> closes_exclusive db \<Longrightarrow> \<exists>db'. Process_loop db = Inr db'"
proof (induction db rule: Process_loop.induct)
  case (1 db)
  show ?case
  proof (cases "opened db \<and> \<not> locked db \<and> queue db \<noteq> []")
    case False
    then show ?thesis
      by (auto simp: Process_loop.simps [of db])
  next
    case run: True
    define call where "call = hd (queue db)"
    show ?thesis
    proof (cases "exclusive call \<and> pending db > 0")
      case True
      with run show ?thesis
        by (auto simp: Process_loop.simps [of db] call_def Let_def)
    next
      case False
      from run have "call \<in> set (queue db)"
        by (simp add: call_def)
      with "1.prems"(2) False have "call_callback call = Fn_BeginClose \<longrightarrow> pending db = 0"
        by (auto simp: closes_exclusive_def)
      with run "1.prems"(1) obtain db1 where
        i: "invoke (call_callback call) (call_baton call) db = Inr db1"
        using invoke_total [of db "call_callback call" "call_baton call"]
        by (auto simp: refs_ok_def)
      from queue_invoke [OF i] have q: "queue db1 = queue db" .
      from run have "int (cnt (\<lambda>c. call_callback c = Fn_BeginClose) (tl (queue db))) +
            (if call_callback call = Fn_BeginClose then 1 else 0) =
            int (cnt (\<lambda>c. call_callback c = Fn_BeginClose) (queue db))"
        using cnt_tl [of "queue db" "\<lambda>c. call_callback c = Fn_BeginClose"]
        by (auto simp: call_def split: if_splits)
      with "1.prems"(1)
      have "refs_ok 0 (db1\<lparr>queue := tl (queue db)\<rparr>)"
        by (intro invoke_refs_ok [OF _ _ _ i]) (auto simp: refs_ok_def held_def)
      moreover from "1.prems"(2) run have "closes_exclusive (db1\<lparr>queue := tl (queue db)\<rparr>)"
        by (auto simp: closes_exclusive_def dest: list.set_sel(2))
      ultimately obtain db' where "Process_loop (db1\<lparr>queue := tl (queue db1)\<rparr>) = Inr db'"
        using "1.IH" [OF run call_def False i] q by auto
      with run False i show ?thesis
        by (auto simp: Process_loop.simps [of db] call_def Let_def)
    qed
  qed
qed

lemma Process_total:
  "refs_ok 0 db \<Longrightarrow> closes_exclusive db \<Longrightarrow> \<exists>db'. Process db = Inr db'"
  by (simp add: Process_def Process_loop_total)

lemma Schedule_total:
  assumes "js_handle db \<noteq> Empty" "c = Fn_BeginClose \<longrightarrow> x"
  shows "\<exists>db'. Schedule c b x db = Inr db'"
proof (cases "\<not> opened db \<or> locked db \<or> (x \<and> pending db > 0)")
  case True
  then show ?thesis
    by (auto simp: Schedule_def split: option.splits)
next
  case False
  with assms obtain db' where "invoke c b db = Inr db'"
    using invoke_total [of db c b] by auto
  with False show ?thesis
    by (auto simp: Schedule_def)
qed

lemma Close_total:
  assumes "js_handle db \<noteq> Empty"
  shows "\<exists>db'. Close cb db = Inr db'"
proof -
  from assms have r: "Ref db = Inr (db\<lparr>refs := refs db + 1, js_handle := Strong\<rparr>)"
    by (simp add: Ref_def)
  have "\<exists>db'. Schedule Fn_BeginClose \<lparr>callback = cb, status = 0, message = []\<rparr> True
      (ev_ref (db\<lparr>refs := refs db + 1, js_handle := Strong\<rparr>)) = Inr db'"
    by (rule Schedule_total) (simp_all add: ev_ref_def)
  with r show ?thesis
    by (simp add: Close_def Let_def)
qed


lemma closes_exclusive_cong: "queue a = queue b \<Longrightarrow> closes_exclusive a = closes_exclusive b"
  by (simp add: closes_exclusive_def)

lemma EIO_AfterOpen_total:
  assumes "refs_ok 1 db" "closes_exclusive db"
  shows "\<exists>db'. EIO_AfterOpen b db = Inr db'"
proof -
  from Unref_total [OF assms(1)] obtain db1 where u: "Unref db = Inr db1" ..
  note r1 = Unref_refs_ok [OF assms(1) u]
  let ?argv0 = "if status b \<noteq> SQLITE_OK then Exception (message b) (status b) else Null"
  let ?db2 = "if status b \<noteq> SQLITE_OK then ev_unref db1 else (ev_unref db1)\<lparr>opened := True\<rparr>"
  let ?X = "case callback b of
              Some f \<Rightarrow> try_catch_call f [?argv0] ?db2
            | None \<Rightarrow> if \<not> opened ?db2 then emit_event 2 [Str ''error'', ?argv0] ?db2 else ?db2"
  let ?Y = "emit_event 1 [Str ''open''] ?X"
  have "refs_ok 0 ?Y = refs_ok 0 db1"
    by (rule refs_ok_cong)
       (simp_all add: try_catch_call_def emit_event_def js_def ev_unref_def
          split: option.splits)
  with r1 have "refs_ok 0 ?Y" by simp
  moreover have "closes_exclusive ?Y = closes_exclusive db"
    by (rule closes_exclusive_cong)
       (simp add: try_catch_call_def emit_event_def js_def ev_unref_def queue_Unref [OF u]
          split: option.splits)
  with assms(2) have "closes_exclusive ?Y" by simp
  ultimately obtain db' where "Process ?Y = Inr db'"
    using Process_total by blast
  with u show ?thesis
    by (auto simp: EIO_AfterOpen_def Let_def split: option.splits)
qed

lemma EIO_AfterClose_total:
  assumes "refs_ok 1 db" "closes_exclusive db"
  shows "\<exists>db'. EIO_AfterClose b db = Inr db'"
proof -
  have "refs_ok 1 (ev_unref db) = refs_ok 1 db"
    by (rule refs_ok_cong) (simp_all add: ev_unref_def)
  with assms(1) have r0: "refs_ok 1 (ev_unref db)" by simp
  from Unref_total [OF r0] obtain db1 where u: "Unref (ev_unref db) = Inr db1" ..
  note r1 = Unref_refs_ok [OF r0 u]
  let ?argv0 = "if status b \<noteq> SQLITE_OK then Exception (message b) (status b) else Null"
  let ?db2 = "if status b \<noteq> SQLITE_OK then db1 else db1\<lparr>opened := False\<rparr>"
  let ?X = "case callback b of
              Some f \<Rightarrow> try_catch_call f [?argv0] ?db2
            | None \<Rightarrow> if opened ?db2 then emit_event 2 [Str ''error'', ?argv0] ?db2 else ?db2"
  let ?Y = "emit_event 1 [Str ''close'', ?argv0] ?X"
  have "refs_ok 0 ?Y = refs_ok 0 db1"
    by (rule refs_ok_cong)
       (simp_all add: try_catch_call_def emit_event_def js_def split: option.splits)
  with r1 have "refs_ok 0 ?Y" by simp
  moreover have "closes_exclusive ?Y = closes_exclusive db"
    by (rule closes_exclusive_cong)
       (simp add: try_catch_call_def emit_event_def js_def ev_unref_def queue_Unref [OF u]
          split: option.splits)
  with assms(2) have "closes_exclusive ?Y" by simp
  ultimately obtain db' where "Process ?Y = Inr db'"
    using Process_total by blast
  with u show ?thesis
    by (auto simp: EIO_AfterClose_def Let_def split: option.splits)
qed

lemma EIO_AfterShared_total:
  assumes "refs_ok 1 db" "closes_exclusive db"
  shows "\<exists>db'. EIO_AfterShared b db = Inr db'"
proof -
  from Unref_total [OF assms(1)] obtain db1 where u: "Unref db = Inr db1" ..
  note r1 = Unref_refs_ok [OF assms(1) u]
  let ?argv0 = "if status b \<noteq> SQLITE_OK then Exception (message b) (status b) else Null"
  let ?db2 = "(ev_unref db1)\<lparr>pending := pending db1 - 1\<rparr>"
  let ?X = "case callback b of Some f \<Rightarrow> try_catch_call f [?argv0] ?db2 | None \<Rightarrow> ?db2"
  have "refs_ok 0 ?X = refs_ok 0 db1"
    by (rule refs_ok_cong)
       (simp_all add: try_catch_call_def js_def ev_unref_def split: option.splits)
  with r1 have "refs_ok 0 ?X" by simp
  moreover have "closes_exclusive ?X = closes_exclusive db"
    by (rule closes_exclusive_cong)
       (simp add: try_catch_call_def js_def ev_unref_def queue_Unref [OF u]
          split: option.splits)
  with assms(2) have "closes_exclusive ?X" by simp
  ultimately obtain db' where "Process ?X = Inr db'"
    using Process_total by blast
  with u show ?thesis
    by (auto simp: EIO_AfterShared_def Let_def split: option.splits if_splits)
qed

lemma step_total:
  assumes "inv n db" "closes_exclusive db" "step e db = Inl a"
  shows "a = Not_enabled"
proof (cases "finalized db")
  case True
  with assms(1) have f: "fin n db"
    by (auto simp: inv_def live_def)
  show ?thesis
  proof (cases e)
    case (Js_close cb)
    with assms(3) True show ?thesis by simp
  next
    case (Js_shared b)
    with assms(3) True show ?thesis by simp
  next
    case (Worker i r)
    with assms(3) show ?thesis
      by (auto simp: worker_def Let_def split: if_splits eio_req.splits prod.splits)
  next
    case (Complete i)
    with assms(3) f show ?thesis
      by (auto simp: complete_def Let_def fin_def split: if_splits)
  next
    case Gc
    with assms(3) show ?thesis by (auto split: if_splits)
  qed
next
  case False
  with assms(1) have l: "refs_ok 0 db" "live n db"
    by (auto simp: inv_def fin_def)
  then have h: "js_handle db \<noteq> Empty"
    by (simp add: refs_ok_def)
  show ?thesis
  proof (cases e)
    case (Js_close cb)
    with assms(3) False Close_total [OF h, of cb] show ?thesis by auto
  next
    case (Js_shared b)
    with assms(3) False Schedule_total [OF h, of Fn_BeginShared False b] show ?thesis by auto
  next
    case (Worker i r)
    with assms(3) show ?thesis
      by (auto simp: worker_def Let_def split: if_splits eio_req.splits prod.splits)
  next
    case (Complete i)
    show ?thesis
    proof (cases "i < length (eio db) \<and> snd (eio db ! i)")
      case False
      with assms(3) Complete show ?thesis by (auto simp: complete_def)
    next
      case True
      let ?db1 = "db\<lparr>eio := remove_nth i (eio db)\<rparr>"
      have c: "closes_exclusive ?db1"
        using assms(2) by (simp add: closes_exclusive_def)
      show ?thesis
      proof (cases "fst (eio db ! i) = Req_Destruct")
        case d: True
        with True have "cnt (\<lambda>x. fst x = Req_Destruct) (eio db) > 0"
          by (auto intro: cnt_pos_nth)
        with l(2) show ?thesis by (simp add: live_def)
      next
        case d: False
        with remove_live [OF l _ d] True have r: "refs_ok 1 ?db1"
          by simp
        have "EIO_AfterOpen b ?db1 \<noteq> Inl a'" for b a'
          using EIO_AfterOpen_total [OF r c, of b] by auto
        moreover have "EIO_AfterClose b ?db1 \<noteq> Inl a'" for b a'
          using EIO_AfterClose_total [OF r c, of b] by auto
        moreover have "EIO_AfterShared b ?db1 \<noteq> Inl a'" for b a'
          using EIO_AfterShared_total [OF r c, of b] by auto
        ultimately show ?thesis
          using assms(3) Complete True d
          by (auto simp: complete_def Let_def split: eio_req.splits)
      qed
    qed
  next
    case Gc
    with assms(3) show ?thesis by (auto split: if_splits)
  qed
qed

lemma run_total:
  assumes "inv n db" "closes_exclusive db" "run es db = Inl a"
  shows "a = Not_enabled"
  using assms
proof (induction es arbitrary: db)
  case Nil
  then show ?case by simp
next
  case (Cons e es)
  show ?case
  proof (cases "step e db")
    case (Inl a')
    with Cons.prems(3) have "a' = a" by simp
    with Inl step_total [OF Cons.prems(1,2)] show ?thesis by simp
  next
    case (Inr db1)
    with Cons.prems(3) have r: "run es db1 = Inl a" by simp
    from inv_step [OF Cons.prems(1) Inr] have i: "inv n db1" .
    from step_holds [OF Cons.prems(2), of e] Inr have c: "closes_exclusive db1" by simp
    from Cons.IH [OF i c r] show ?thesis .
  qed
qed

lemma no_assertion_fails:
  assumes "New require e args True = Inr db0" "eio e = []" "run es db0 = Inl a"
  shows "a = Not_enabled"
proof -
  from New_Inr_require [OF assms(1)] obtain fname where f: "require args = Inr fname" ..
  from assms(1) have "queue db0 = []"
    by (auto simp: New_construct [of require args fname e, OF f] new_Database_def)
  then have "closes_exclusive db0"
    by (simp add: closes_exclusive_def)
  with inv_New [OF assms(1,2)] show ?thesis
    using assms(3) by (rule run_total)
qed

end
